theory Spec2Isabelle
  imports Main
begin

section \<open>Events and the state store\<close>

text \<open>
  The notebooks subclass the library's \<open>Event\<close>. \<open>StartEvent\<close> carries the keyword
  arguments given to \<open>run\<close> (read with \<open>ev.get\<close>), \<open>StopEvent\<close> carries the result of the
  run, and \<open>Ev\<close> wraps the event classes a notebook declares itself.
\<close>

datatype ('u, 'r) event =
    StartEvent "(string \<times> string) list"
  | StopEvent 'r
  | Ev 'u

datatype exn = UnboundLocalError | AttributeError | KeyError | ValueError | IndexError | TypeError

text \<open>
  Modelled from the spec: \<open>ctx.store.get(key, default)\<close> and \<open>ctx.store.set(key, value)\<close>
  belong to the library; the store is a mapping from string keys to values.
\<close>

definition store_get :: "(string \<rightharpoonup> 'v) \<Rightarrow> string \<Rightarrow> 'v \<Rightarrow> 'v" where
  "store_get s k d = (case s k of None \<Rightarrow> d | Some v \<Rightarrow> v)"

definition store_set :: "(string \<rightharpoonup> 'v) \<Rightarrow> string \<Rightarrow> 'v \<Rightarrow> (string \<rightharpoonup> 'v)" where
  "store_set s k v = s(k \<mapsto> v)"

section \<open>The reflection workflow (reflection.ipynb)\<close>

datatype reflection_event =
    ExtractionDone string string
  | ValidationErrorEvent string string string

text \<open>
  \<open>ExtractionDone output passage\<close> and \<open>ValidationErrorEvent error wrong_output passage\<close>,
  with the fields in the order the classes declare them.
\<close>

record ReflectionWorkflow =
  max_retries :: int

text \<open>
  The collaborators the steps call but the notebook does not define: the completion
  function \<open>llm.acomplete\<close> (its answer may differ from call to call, so it is given the
  number of earlier calls together with the prompt), the schema validation
  \<open>CarCollection.model_validate_json\<close> (\<open>None\<close> when the text parses, \<open>Some msg\<close> when it
  raises an exception \<open>e\<close> with \<open>str(e) = msg\<close>) and \<open>CarCollection.schema_json()\<close>.
\<close>

record externals =
  acomplete :: "nat \<Rightarrow> string \<Rightarrow> string"
  model_validate_json :: "string \<Rightarrow> string option"
  schema_json :: string

text \<open>
  What a step can change: the state store of the run's context, the prompts sent to the
  completion function so far, and the lines printed.
\<close>

record world =
  store :: "string \<rightharpoonup> int"
  prompts :: "string list"
  stdout :: "string list"

definition EXTRACTION_PROMPT :: "string \<Rightarrow> string \<Rightarrow> string" where
  "EXTRACTION_PROMPT passage schema =
     ''\<newline>Context information is below:\<newline>---------------------\<newline>'' @ passage @
     ''\<newline>---------------------\<newline>\<newline>Given the context information and not prior knowledge, create a JSON object from the information in the context.\<newline>The JSON object must follow the JSON schema:\<newline>'' @
     schema @ ''\<newline>\<newline>''"

definition REFLECTION_PROMPT :: "string \<Rightarrow> string \<Rightarrow> string" where
  "REFLECTION_PROMPT wrong_answer error =
     ''\<newline>You already created this output previously:\<newline>---------------------\<newline>'' @ wrong_answer @
     ''\<newline>---------------------\<newline>\<newline>This caused the JSON decode error: '' @ error @
     ''\<newline>\<newline>Try again, the response must contain only valid JSON code. Do not add any sentence before or after the JSON object.\<newline>Do not repeat the schema.\<newline>''"

text \<open>
  The tail of \<open>extract\<close>, once \<open>passage\<close> and \<open>reflection_prompt\<close> are bound: build the
  prompt, call the completion function, emit \<open>ExtractionDone\<close>.
\<close>

definition complete_extraction ::
  "externals \<Rightarrow> world \<Rightarrow> string \<Rightarrow> string \<Rightarrow> world \<times> (exn + (reflection_event, string) event)" where
  "complete_extraction x w passage reflection_prompt =
     (let prompt = EXTRACTION_PROMPT passage (schema_json x);
          prompt = (if reflection_prompt \<noteq> [] then prompt @ reflection_prompt else prompt);
          output = acomplete x (length (prompts w)) prompt
      in (w\<lparr>prompts := prompts w @ [prompt]\<rparr>, Inr (Ev (ExtractionDone output passage))))"

definition "extract" ::
  "ReflectionWorkflow \<Rightarrow> externals \<Rightarrow> world \<Rightarrow> (reflection_event, string) event
     \<Rightarrow> world \<times> (exn + (reflection_event, string) event)" where
  "extract self x w ev =
     (let current_retries = store_get (store w) ''retries'' 0 in
      if current_retries \<ge> max_retries self then (w, Inr (StopEvent ''Max retries reached''))
      else
        let w = w\<lparr>store := store_set (store w) ''retries'' (current_retries + 1)\<rparr> in
        (case ev of
           StartEvent kwargs \<Rightarrow>
             (case map_of kwargs ''passage'' of
                None \<Rightarrow> (w, Inr (StopEvent ''Please provide some text in input''))
              | Some passage \<Rightarrow>
                  if passage = [] then (w, Inr (StopEvent ''Please provide some text in input''))
                  else complete_extraction x w passage [])
         | Ev (ValidationErrorEvent error wrong_output passage) \<Rightarrow>
             complete_extraction x w passage (REFLECTION_PROMPT wrong_output error)
         | _ \<Rightarrow> (w, Inl UnboundLocalError)))"

definition validate ::
  "externals \<Rightarrow> world \<Rightarrow> (reflection_event, string) event
     \<Rightarrow> world \<times> (exn + (reflection_event, string) event)" where
  "validate x w ev =
     (case ev of
        Ev (ExtractionDone output passage) \<Rightarrow>
          (case model_validate_json x output of
             None \<Rightarrow> (w, Inr (StopEvent output))
           | Some e \<Rightarrow>
               (w\<lparr>stdout := stdout w @ [''Validation failed, retrying...'']\<rparr>,
                Inr (Ev (ValidationErrorEvent e output passage))))
      | _ \<Rightarrow> (w\<lparr>stdout := stdout w @ [''Validation failed, retrying...'']\<rparr>, Inl AttributeError))"

text \<open>
  Which step takes an event, read off the annotations of the steps:
  \<open>extract(ev: StartEvent | ValidationErrorEvent)\<close> and \<open>validate(ev: ExtractionDone)\<close>;
  a \<open>StopEvent\<close> is taken by no step, it halts the workflow.
\<close>

fun accepting_step :: "(reflection_event, string) event \<Rightarrow> string option" where
  "accepting_step (StartEvent _) = Some ''extract''"
| "accepting_step (Ev (ValidationErrorEvent _ _ _)) = Some ''extract''"
| "accepting_step (Ev (ExtractionDone _ _)) = Some ''validate''"
| "accepting_step (StopEvent _) = None"

definition invoke ::
  "ReflectionWorkflow \<Rightarrow> externals \<Rightarrow> world \<Rightarrow> (reflection_event, string) event
     \<Rightarrow> world \<times> (exn + (reflection_event, string) event)" where
  "invoke self x w ev =
     (if accepting_step ev = Some ''validate'' then validate x w ev else extract self x w ev)"

definition retries_left :: "ReflectionWorkflow \<Rightarrow> world \<Rightarrow> nat" where
  "retries_left self w = nat (max_retries self - store_get (store w) ''retries'' 0)"

fun pending_work :: "ReflectionWorkflow \<Rightarrow> world \<Rightarrow> (reflection_event, string) event \<Rightarrow> nat" where
  "pending_work self w (StopEvent _) = 0"
| "pending_work self w (Ev (ExtractionDone _ _)) = 2 * retries_left self w + 2"
| "pending_work self w _ = 2 * retries_left self w + 1"

lemma invoke_decreases:
  assumes "invoke self x w ev = (w', Inr ev')" and "accepting_step ev \<noteq> None"
  shows "pending_work self w' ev' < pending_work self w ev"
proof (cases ev)
  case (StartEvent kw)
  with assms show ?thesis
    by (auto simp: invoke_def extract_def complete_extraction_def Let_def retries_left_def
        store_get_def store_set_def split: if_splits option.splits)
next
  case (StopEvent r)
  with assms show ?thesis by simp
next
  case (Ev u)
  with assms show ?thesis
    by (cases u)
      (auto simp: invoke_def extract_def validate_def complete_extraction_def Let_def
        retries_left_def store_get_def store_set_def split: if_splits option.splits)
qed

text \<open>
  The run: events are handed to the step that accepts them until a \<open>StopEvent\<close> comes
  out, whose result is what \<open>await w.run(...)\<close> returns; an exception escaping a step ends
  the run with that exception. Besides the final world and the result, the run gives the
  list of its step invocations: the step's name, the event it consumed and what it
  produced.
\<close>

type_synonym invocation =
  "string \<times> (reflection_event, string) event \<times> (exn + (reflection_event, string) event)"

function run_from ::
  "ReflectionWorkflow \<Rightarrow> externals \<Rightarrow> world \<Rightarrow> (reflection_event, string) event
     \<Rightarrow> world \<times> invocation list \<times> (exn + string)" where
  "run_from self x w ev =
     (case accepting_step ev of
        None \<Rightarrow> (w, [], (case ev of StopEvent result \<Rightarrow> Inr result | _ \<Rightarrow> Inl ValueError))
      | Some step \<Rightarrow>
          (case invoke self x w ev of
             (w', Inl e) \<Rightarrow> (w', [(step, ev, Inl e)], Inl e)
           | (w', Inr ev') \<Rightarrow>
               (case run_from self x w' ev' of
                  (w'', invocations, result) \<Rightarrow> (w'', (step, ev, Inr ev') # invocations, result))))"
  by pat_completeness auto
termination
proof (relation "measure (\<lambda>(self, x, w, ev). pending_work self w ev)", goal_cases)
  case 1
  show ?case by simp
next
  case (2 self x w ev step w' s ev')
  then have "invoke self x w ev = (w', Inr ev')" "accepting_step ev \<noteq> None" by auto
  from invoke_decreases [OF this] show ?case by simp
qed

declare run_from.simps [simp del]

definition fresh_world :: world where
  "fresh_world = \<lparr>store = Map.empty, prompts = [], stdout = []\<rparr>"

definition run ::
  "ReflectionWorkflow \<Rightarrow> externals \<Rightarrow> (string \<times> string) list
     \<Rightarrow> world \<times> invocation list \<times> (exn + string)" where
  "run self x kwargs = run_from self x fresh_world (StartEvent kwargs)"

definition retries :: "world \<Rightarrow> int" where
  "retries w = store_get (store w) ''retries'' 0"

text \<open>
  The extraction output of the workflow's attempt number \<open>i\<close> (counted from 0) on a
  passage: the first prompt is the extraction prompt alone, each later one appends the
  reflection prompt built from the previous output and the error it caused.
\<close>

fun output_at :: "externals \<Rightarrow> string \<Rightarrow> nat \<Rightarrow> string" where
  "output_at x passage 0 = acomplete x 0 (EXTRACTION_PROMPT passage (schema_json x))"
| "output_at x passage (Suc i) =
     (case model_validate_json x (output_at x passage i) of
        None \<Rightarrow> output_at x passage i
      | Some e \<Rightarrow>
          acomplete x (Suc i)
            (EXTRACTION_PROMPT passage (schema_json x)
               @ REFLECTION_PROMPT (output_at x passage i) e))"

text \<open>
  An extraction attempt is an invocation of \<open>extract\<close> that gets past the ceiling check
  (anything but the "Max retries reached" stop); a reflective retry is such an attempt
  made on a \<open>ValidationErrorEvent\<close>.
\<close>

fun is_attempt :: "invocation \<Rightarrow> bool" where
  "is_attempt (step, ev, out) =
     (step = ''extract'' \<and> out \<noteq> Inr (StopEvent ''Max retries reached''))"

fun is_reflective_retry :: "invocation \<Rightarrow> bool" where
  "is_reflective_retry (step, Ev (ValidationErrorEvent _ _ _), out) =
     (step = ''extract'' \<and> out \<noteq> Inr (StopEvent ''Max retries reached''))"
| "is_reflective_retry _ = False"

definition extraction_attempts :: "invocation list \<Rightarrow> nat" where
  "extraction_attempts invocations = length (filter is_attempt invocations)"

definition reflective_retries :: "invocation list \<Rightarrow> nat" where
  "reflective_retries invocations = length (filter is_reflective_retry invocations)"

text \<open>
  The workflow as the notebook builds it, a completion function whose first answer is not
  valid JSON and whose later answers are, and one whose every answer is accepted.
\<close>

definition default_workflow :: ReflectionWorkflow where
  "default_workflow = \<lparr>max_retries = 3\<rparr>"

definition flaky_externals :: externals where
  "flaky_externals =
     \<lparr>acomplete = (\<lambda>i prompt. if i = 0 then ''Here are the cars'' else ''{}''),
      model_validate_json = (\<lambda>s. if s = ''{}'' then None else Some ''Invalid JSON''),
      schema_json = ''schema''\<rparr>"

definition accepting_externals :: externals where
  "accepting_externals =
     \<lparr>acomplete = (\<lambda>i prompt. ''{}''), model_validate_json = (\<lambda>s. None), schema_json = ''schema''\<rparr>"

section \<open>The story workflow (human_in_the_loop_story_crafting.ipynb)\<close>

record Segment =
  plot :: string
  actions :: "string list"

text \<open>
  A \<open>Block\<close> is a mutable object: \<open>prompt_human\<close> assigns its \<open>choice\<close>. Its fourth field,
  \<open>block_template\<close>, is \<open>BLOCK_TEMPLATE\<close> in every block the notebook builds.
\<close>

record Block =
  block_id :: string
  segment :: Segment
  choice :: "string option"

fun join :: "string \<Rightarrow> string list \<Rightarrow> string" where
  "join sep [] = []"
| "join sep [s] = s"
| "join sep (s # t # ss) = s @ sep @ join sep (t # ss)"

definition BLOCK_TEMPLATE :: "string \<Rightarrow> string \<Rightarrow> string \<Rightarrow> string" where
  "BLOCK_TEMPLATE plot_text actions_text choice_text =
     ''\<newline>BLOCK\<newline>===\<newline>PLOT: '' @ plot_text @ ''\<newline>ACTIONS: '' @ actions_text @
     ''\<newline>CHOICE: '' @ choice_text @ ''\<newline>''"

definition str_Block :: "Block \<Rightarrow> string" where
  "str_Block b =
     BLOCK_TEMPLATE (plot (segment b)) (join '', '' (actions (segment b)))
       (case choice b of None \<Rightarrow> [] | Some c \<Rightarrow> c)"

text \<open>
  Python objects live in a heap and are passed by reference: a \<open>NewBlockEvent\<close> holds the
  address of its \<open>Block\<close>, a list of blocks holds addresses, and the result of the
  \<open>StopEvent\<close> is the address of the list.
\<close>

type_synonym addr = nat

datatype story_event =
    NewBlockEvent addr
  | HumanChoiceEvent string

datatype segment_template = SEGMENT_GENERATION_TEMPLATE | FINAL_SEGMENT_GENERATION_TEMPLATE

record ChooseYourOwnAdventureWorkflow =
  max_steps :: int

text \<open>
  The collaborators: \<open>llm.structured_predict\<close> (given the number of earlier calls, the
  template and the running story), \<open>input\<close> (given the number of earlier reads and the
  prompt) and \<open>uuid.uuid4\<close> (the identifier of the n-th block built).
\<close>

record story_externals =
  structured_predict :: "nat \<Rightarrow> segment_template \<Rightarrow> string \<Rightarrow> Segment"
  read_input :: "nat \<Rightarrow> string \<Rightarrow> string"
  uuid4 :: "nat \<Rightarrow> string"

text \<open>
  The library's state store is not part of the notebook, so what it keeps is a parameter:
  with \<open>ByReference\<close> the store keeps the object it is given and hands the same object
  back; with \<open>ByValue\<close> (the store as a mapping from keys to values) \<open>set\<close> keeps the
  value the object has at that moment and \<open>get\<close> hands out a new object with that value.
\<close>

datatype store_semantics = ByReference | ByValue

datatype stored = Reference addr | Snapshot "Block list"

record story_world =
  heap_blocks :: "addr \<rightharpoonup> Block"
  heap_lists :: "addr \<rightharpoonup> addr list"
  next_addr :: addr
  ctx_store :: "string \<rightharpoonup> stored"
  predictions :: nat
  inputs_read :: nat
  blocks_built :: nat

definition alloc_list :: "story_world \<Rightarrow> addr list \<Rightarrow> story_world \<times> addr" where
  "alloc_list w l =
     (w\<lparr>heap_lists := (heap_lists w)(next_addr w \<mapsto> l), next_addr := Suc (next_addr w)\<rparr>,
      next_addr w)"

definition alloc_block :: "story_world \<Rightarrow> Block \<Rightarrow> story_world \<times> addr" where
  "alloc_block w b =
     (w\<lparr>heap_blocks := (heap_blocks w)(next_addr w \<mapsto> b), next_addr := Suc (next_addr w)\<rparr>,
      next_addr w)"

fun materialize :: "story_world \<Rightarrow> Block list \<Rightarrow> story_world \<times> addr list" where
  "materialize w [] = (w, [])"
| "materialize w (b # bs) =
     (case alloc_block w b of
        (w1, a) \<Rightarrow> (case materialize w1 bs of (w2, as) \<Rightarrow> (w2, a # as)))"

definition list_at :: "story_world \<Rightarrow> addr \<Rightarrow> addr list" where
  "list_at w a = (case heap_lists w a of None \<Rightarrow> [] | Some l \<Rightarrow> l)"

definition deref :: "story_world \<Rightarrow> addr \<Rightarrow> Block list" where
  "deref w a = List.map_filter (heap_blocks w) (list_at w a)"

text \<open>
  \<open>ctx.store.get(key)\<close>: \<open>None\<close> when the key is not in the store, else the world (a
  snapshot is made into new objects) and the address of the list.
\<close>

definition ctx_get :: "story_world \<Rightarrow> string \<Rightarrow> (story_world \<times> addr) option" where
  "ctx_get w key =
     (case ctx_store w key of
        None \<Rightarrow> None
      | Some (Reference a) \<Rightarrow> Some (w, a)
      | Some (Snapshot bs) \<Rightarrow>
          (case materialize w bs of (w1, as) \<Rightarrow> Some (alloc_list w1 as)))"

definition ctx_set :: "store_semantics \<Rightarrow> story_world \<Rightarrow> string \<Rightarrow> addr \<Rightarrow> story_world" where
  "ctx_set sem w key a =
     w\<lparr>ctx_store := (ctx_store w)(key \<mapsto>
          (case sem of ByReference \<Rightarrow> Reference a | ByValue \<Rightarrow> Snapshot (deref w a)))\<rparr>"

text \<open>\<open>Block(segment=...)\<close>: a new object with a new identifier and no choice.\<close>

definition new_Block :: "story_externals \<Rightarrow> story_world \<Rightarrow> Segment \<Rightarrow> story_world \<times> addr" where
  "new_Block x w s =
     alloc_block (w\<lparr>blocks_built := Suc (blocks_built w)\<rparr>)
       \<lparr>block_id = uuid4 x (blocks_built w), segment = s, choice = None\<rparr>"

definition list_append :: "story_world \<Rightarrow> addr \<Rightarrow> addr \<Rightarrow> story_world" where
  "list_append w l a = w\<lparr>heap_lists := (heap_lists w)(l \<mapsto> list_at w l @ [a])\<rparr>"

definition create_segment ::
  "store_semantics \<Rightarrow> ChooseYourOwnAdventureWorkflow \<Rightarrow> story_externals \<Rightarrow> story_world
     \<Rightarrow> (story_event, addr) event \<Rightarrow> story_world \<times> (exn + (story_event, addr) event)" where
  "create_segment sem self x w ev =
     (case (case ctx_get w ''blocks'' of None \<Rightarrow> alloc_list w [] | Some r \<Rightarrow> r) of
        (w, blocks) \<Rightarrow>
          let running_story = join ''\<newline>'' (map str_Block (deref w blocks)) in
          if int (length (list_at w blocks)) < max_steps self then
            let new_segment =
                  structured_predict x (predictions w) SEGMENT_GENERATION_TEMPLATE running_story;
                w = w\<lparr>predictions := Suc (predictions w)\<rparr>
            in (case new_Block x w new_segment of
                  (w, new_block) \<Rightarrow>
                    let w = list_append w blocks new_block;
                        w = ctx_set sem w ''blocks'' blocks
                    in (w, Inr (Ev (NewBlockEvent new_block))))
          else
            let final_segment =
                  structured_predict x (predictions w) FINAL_SEGMENT_GENERATION_TEMPLATE running_story;
                w = w\<lparr>predictions := Suc (predictions w)\<rparr>
            in (case new_Block x w final_segment of
                  (w, final_block) \<Rightarrow>
                    let w = list_append w blocks final_block
                    in (w, Inr (StopEvent blocks))))"

definition human_prompt :: "Block \<Rightarrow> string" where
  "human_prompt b =
     ''\<newline>===\<newline>'' @ plot (segment b) @ ''\<newline>\<newline>'' @
     ''Choose your adventure:\<newline>\<newline>'' @
     join ''\<newline>'' (actions (segment b)) @ ''\<newline>\<newline>''"

text \<open>
  \<open>prompt_human\<close>. \<open>ctx.store.get("blocks")\<close> has no default and raises when the key is
  missing; \<open>blocks[-1] = block\<close> raises \<open>IndexError\<close> on an empty list, after the choice has
  been assigned. An event of another class has no \<open>block\<close>; the same error stands in
  for an address that holds no block, which no \<open>NewBlockEvent\<close> of a run has.
\<close>

definition prompt_human ::
  "store_semantics \<Rightarrow> story_externals \<Rightarrow> story_world
     \<Rightarrow> (story_event, addr) event \<Rightarrow> story_world \<times> (exn + (story_event, addr) event)" where
  "prompt_human sem x w ev =
     (case ev of
        Ev (NewBlockEvent block) \<Rightarrow>
          (case heap_blocks w block of
             None \<Rightarrow> (w, Inl AttributeError)
           | Some b \<Rightarrow>
               let human_input = read_input x (inputs_read w) (human_prompt b);
                   w = w\<lparr>inputs_read := Suc (inputs_read w)\<rparr>
               in (case ctx_get w ''blocks'' of
                     None \<Rightarrow> (w, Inl ValueError)
                   | Some (w, blocks) \<Rightarrow>
                       let w = w\<lparr>heap_blocks := (heap_blocks w)(block \<mapsto> b\<lparr>choice := Some human_input\<rparr>)\<rparr>
                       in if list_at w blocks = [] then (w, Inl IndexError)
                          else
                            let l = list_at w blocks;
                                w = w\<lparr>heap_lists := (heap_lists w)(blocks \<mapsto> l[length l - 1 := block])\<rparr>;
                                w = ctx_set sem w ''block'' blocks
                            in (w, Inr (Ev (HumanChoiceEvent (block_id b))))))
      | _ \<Rightarrow> (w, Inl AttributeError))"

text \<open>
  The blocks a step gets from \<open>ctx.store.get("blocks")\<close>, as values; and an event with the
  objects its payload refers to, as values.
\<close>

definition blocks_read :: "story_world \<Rightarrow> Block list option" where
  "blocks_read w =
     (case ctx_get w ''blocks'' of None \<Rightarrow> None | Some (w', a) \<Rightarrow> Some (deref w' a))"

datatype story_payload =
    NewBlockPayload "Block option"
  | HumanChoicePayload string

fun payload :: "story_world \<Rightarrow> (story_event, addr) event \<Rightarrow> (story_payload, Block list) event" where
  "payload w (StartEvent kwargs) = StartEvent kwargs"
| "payload w (StopEvent result) = StopEvent (deref w result)"
| "payload w (Ev (NewBlockEvent block)) = Ev (NewBlockPayload (heap_blocks w block))"
| "payload w (Ev (HumanChoiceEvent i)) = Ev (HumanChoicePayload i)"

definition empty_story_world :: story_world where
  "empty_story_world =
     \<lparr>heap_blocks = Map.empty, heap_lists = Map.empty, next_addr = 0, ctx_store = Map.empty,
      predictions = 0, inputs_read = 0, blocks_built = 0\<rparr>"

definition story_teller :: story_externals where
  "story_teller =
     \<lparr>structured_predict = (\<lambda>n t story. \<lparr>plot = ''A map is found.'', actions = [''Follow the map'', ''Ask a guide'']\<rparr>),
      read_input = (\<lambda>n prompt. ''Ask a guide''),
      uuid4 = (\<lambda>n. if n = 0 then ''id-0'' else ''id-1'')\<rparr>"

definition adventure :: ChooseYourOwnAdventureWorkflow where
  "adventure = \<lparr>max_steps = 3\<rparr>"

definition first_round :: "store_semantics \<Rightarrow> story_world" where
  "first_round sem = fst (create_segment sem adventure story_teller empty_story_world (StartEvent []))"

definition first_choice :: "store_semantics \<Rightarrow> story_world" where
  "first_choice sem = fst (prompt_human sem story_teller (first_round sem) (Ev (NewBlockEvent 1)))"

text \<open>The first block of the story told above.\<close>

definition first_block :: Block where
  "first_block =
     \<lparr>block_id = ''id-0'',
      segment = \<lparr>plot = ''A map is found.'', actions = [''Follow the map'', ''Ask a guide'']\<rparr>,
      choice = None\<rparr>"

text \<open>
  A story teller that retells: the plot of the segment it writes is the running story it
  was given. The second round of the story with it, after the first choice.
\<close>

definition retelling :: story_externals where
  "retelling =
     story_teller\<lparr>structured_predict := (\<lambda>n t running_story. \<lparr>plot = running_story, actions = [''Go on'']\<rparr>)\<rparr>"

definition second_round :: "store_semantics \<Rightarrow> story_world" where
  "second_round sem =
     fst (create_segment sem adventure retelling (first_choice sem) (Ev (HumanChoiceEvent ''id-0'')))"

section \<open>The step-event scheduler\<close>

text \<open>
  Modelled from the spec: the engine that runs the steps (the library's \<open>Workflow.run\<close>,
  its timeout, cancellation and hand-off) is not among the sources. The definitions of
  this section follow sections 3 to 7 of the specification. Wall-clock time is counted
  in ticks, and every invocation takes at least one. The validation of the step graph at
  registration and the fan-out of one event to several steps are left out: an event that
  no step accepts fails the run with \<open>ConfigurationError\<close> when it is taken up.
\<close>

datatype error = ConfigurationError | AmbiguousRouteError | IllegalHandoffError | ModelError

datatype 'r outcome = Stopped 'r | Cancelled | TimedOut | Failed error

text \<open>
  What an invocation of a step's body does: it returns a new state, the events it emits
  and the ticks it spent suspended; or it raises; or it stays suspended for ever.
\<close>

datatype ('s, 'e) completion = Returns 's "'e list" nat | Raises error | Suspends

text \<open>
  A step: its name, the event kinds it accepts, its hand-off allow-list and its body.
  \<open>written\<close> is the shared state as the body has written it by the time it suspends or
  raises: what an invocation that is interrupted, or that fails, leaves in the store.
\<close>

record ('s, 'e) step =
  step_name :: string
  accepts :: "'e \<Rightarrow> bool"
  handoff_allow_list :: "string list"
  body :: "'s \<Rightarrow> 'e \<Rightarrow> ('s, 'e) completion"
  written :: "'s \<Rightarrow> 'e \<Rightarrow> 's"

text \<open>
  A workflow: its steps, the timeout, and how a hand-off event is told from the other
  user-defined events (the target step's name and the reason).
\<close>

record ('s, 'u, 'r) workflow =
  steps :: "('s, ('u, 'r) event) step list"
  timeout :: nat
  handoff_of :: "'u \<Rightarrow> (string \<times> string) option"

text \<open>
  A run: the pending-event queue and, for each pending event, the step that emitted it
  (none for the \<open>StartEvent\<close>); the shared state, the clock, the terminal result slot
  (the outcomes recorded, in order), the invocations made (step name and event consumed)
  and all events in the order they arrived.
\<close>

record ('s, 'u, 'r) run =
  queue :: "('u, 'r) event list"
  senders :: "string option list"
  state :: 's
  clock :: nat
  outcomes :: "'r outcome list"
  invoked :: "(string \<times> ('u, 'r) event) list"
  arrived :: "('u, 'r) event list"

definition start :: "(string \<times> string) list \<Rightarrow> 's \<Rightarrow> ('s, 'u, 'r) run" where
  "start kwargs initial_state =
     \<lparr>queue = [StartEvent kwargs], senders = [None], state = initial_state, clock = 0,
      outcomes = [], invoked = [], arrived = [StartEvent kwargs]\<rparr>"

text \<open>The step that emitted the event at the head of the queue.\<close>

definition sender :: "('s, 'u, 'r) run \<Rightarrow> string option" where
  "sender r = (case senders r of [] \<Rightarrow> None | s # _ \<Rightarrow> s)"

definition finish :: "'r outcome \<Rightarrow> ('s, 'u, 'r) run \<Rightarrow> ('s, 'u, 'r) run" where
  "finish out r = r\<lparr>outcomes := outcomes r @ [out]\<rparr>"

text \<open>
  The caller may cancel at a tick of its choice. The run is interrupted at the earlier of
  that tick and the timeout.
\<close>

definition interrupt :: "('s, 'u, 'r) workflow \<Rightarrow> nat option \<Rightarrow> nat \<times> 'r outcome" where
  "interrupt flow cancel_at =
     (case cancel_at of
        None \<Rightarrow> (timeout flow, TimedOut)
      | Some t \<Rightarrow> if t < timeout flow then (t, Cancelled) else (timeout flow, TimedOut))"

fun first_stop :: "('u, 'r) event list \<Rightarrow> 'r outcome list" where
  "first_stop [] = []"
| "first_stop (StopEvent result # evs) = [Stopped result]"
| "first_stop (_ # evs) = first_stop evs"

definition find_step :: "('s, 'u, 'r) workflow \<Rightarrow> string \<Rightarrow> ('s, ('u, 'r) event) step option" where
  "find_step flow n = List.find (\<lambda>st. step_name st = n) (steps flow)"

text \<open>
  The check of a hand-off: the current step is the step that hands off, the one that
  emitted the hand-off event, and the target has to be in its allow-list.
\<close>

definition may_handoff :: "('s, 'u, 'r) workflow \<Rightarrow> string option \<Rightarrow> string \<Rightarrow> bool" where
  "may_handoff flow cur target =
     (case cur of
        None \<Rightarrow> False
      | Some c \<Rightarrow> (case find_step flow c of None \<Rightarrow> False | Some st \<Rightarrow> target \<in> set (handoff_allow_list st)))"

text \<open>
  Routing: a hand-off event goes to the step it names, if the allow-list of the step that
  emitted it has that name; any other event goes to the one step that accepts its kind.
\<close>

definition route ::
  "('s, 'u, 'r) workflow \<Rightarrow> string option \<Rightarrow> ('u, 'r) event \<Rightarrow> error + ('s, ('u, 'r) event) step" where
  "route flow cur ev =
     (case (case ev of Ev u \<Rightarrow> handoff_of flow u | _ \<Rightarrow> None) of
        Some (target, reason) \<Rightarrow>
          if may_handoff flow cur target then
            (case find_step flow target of None \<Rightarrow> Inl ConfigurationError | Some st \<Rightarrow> Inr st)
          else Inl IllegalHandoffError
      | None \<Rightarrow>
          (case filter (\<lambda>st. accepts st ev) (steps flow) of
             [] \<Rightarrow> Inl ConfigurationError
           | [st] \<Rightarrow> Inr st
           | _ \<Rightarrow> Inl AmbiguousRouteError))"

text \<open>
  One iteration of the execution loop. The events a step returns are appended to the
  queue with the step's name as their sender. An invocation that the timeout or the
  cancellation interrupts, or that raises, leaves the state as written by then.
\<close>

definition sched_step ::
  "('s, 'u, 'r) workflow \<Rightarrow> nat option \<Rightarrow> ('s, 'u, 'r) run \<Rightarrow> ('s, 'u, 'r) run" where
  "sched_step flow cancel_at r =
     (if outcomes r \<noteq> [] then r
      else
        case interrupt flow cancel_at of
          (deadline, how) \<Rightarrow>
            if deadline \<le> clock r then finish how r
            else
              (case queue r of
                 [] \<Rightarrow> finish how (r\<lparr>clock := deadline\<rparr>)
               | ev # pending \<Rightarrow>
                   (case route flow (sender r) ev of
                      Inl e \<Rightarrow> finish (Failed e) r
                    | Inr st \<Rightarrow>
                        let left = written st (state r) ev;
                            r = r\<lparr>queue := pending,
                                   senders := tl (senders r),
                                   invoked := invoked r @ [(step_name st, ev)]\<rparr>
                        in (case body st (state r) ev of
                              Suspends \<Rightarrow> finish how (r\<lparr>state := left, clock := deadline\<rparr>)
                            | Raises e \<Rightarrow> finish (Failed e) (r\<lparr>state := left, clock := Suc (clock r)\<rparr>)
                            | Returns s' emitted d \<Rightarrow>
                                if deadline \<le> clock r + d
                                then finish how (r\<lparr>state := left, clock := deadline\<rparr>)
                                else r\<lparr>queue := pending @ emitted,
                                       senders := senders r @ map (\<lambda>ev. Some (step_name st)) emitted,
                                       arrived := arrived r @ emitted,
                                       state := s',
                                       clock := Suc (clock r + d),
                                       outcomes := first_stop emitted\<rparr>))))"

definition time_left :: "('s, 'u, 'r) workflow \<Rightarrow> ('s, 'u, 'r) run \<Rightarrow> nat" where
  "time_left flow r = (if outcomes r \<noteq> [] then 0 else Suc (timeout flow - clock r))"

lemma interrupt_le_timeout: "interrupt flow cancel_at = (deadline, how) \<Longrightarrow> deadline \<le> timeout flow"
  by (auto simp: interrupt_def split: option.splits if_splits)

lemma sched_step_progress:
  "outcomes r = [] \<Longrightarrow> time_left flow (sched_step flow cancel_at r) < time_left flow r"
  by (auto simp: sched_step_def time_left_def finish_def Let_def
      split: prod.splits list.splits sum.splits completion.splits dest!: interrupt_le_timeout)

function exec :: "('s, 'u, 'r) workflow \<Rightarrow> nat option \<Rightarrow> ('s, 'u, 'r) run \<Rightarrow> ('s, 'u, 'r) run" where
  "exec flow cancel_at r = (if outcomes r \<noteq> [] then r else exec flow cancel_at (sched_step flow cancel_at r))"
  by pat_completeness auto
termination
  by (relation "measure (\<lambda>(flow, cancel_at, r). time_left flow r)") (auto simp: sched_step_progress)

declare exec.simps [simp del]

text \<open>
  Two invariants of a run. \<open>fifo\<close>: the events that arrived are the events consumed so
  far, in the order of their invocations, followed by the pending queue. \<open>stop_recorded\<close>:
  the terminal slot holds at most one outcome, and it holds a \<open>Stopped\<close> outcome exactly
  for the first \<open>StopEvent\<close> that arrived.
\<close>

fun is_Stopped :: "'r outcome \<Rightarrow> bool" where
  "is_Stopped (Stopped _) = True"
| "is_Stopped _ = False"

definition fifo :: "('s, 'u, 'r) run \<Rightarrow> bool" where
  "fifo r = (arrived r = map snd (invoked r) @ queue r)"

definition stop_recorded :: "('s, 'u, 'r) run \<Rightarrow> bool" where
  "stop_recorded r =
     (length (outcomes r) \<le> 1 \<and> filter is_Stopped (outcomes r) = first_stop (arrived r))"

text \<open>
  The reflection workflow as a workflow of the scheduler: one step per \<open>@step\<close> method,
  accepting the events its annotation names. An invocation of \<open>extract\<close> is suspended
  while the completion function answers (\<open>latency\<close>, by the number of earlier calls);
  by then it has set the counter and sent the prompt, and it writes nothing afterwards.
\<close>

definition as_completion ::
  "nat \<Rightarrow> world \<times> (exn + (reflection_event, string) event)
     \<Rightarrow> (world, (reflection_event, string) event) completion" where
  "as_completion d res =
     (case res of (w, Inr ev) \<Rightarrow> Returns w [ev] d | (w, Inl e) \<Rightarrow> Raises ConfigurationError)"

definition reflection_flow ::
  "ReflectionWorkflow \<Rightarrow> externals \<Rightarrow> (nat \<Rightarrow> nat) \<Rightarrow> nat \<Rightarrow> (world, reflection_event, string) workflow" where
  "reflection_flow self x latency limit =
     \<lparr>steps =
        [\<lparr>step_name = ''extract'',
          accepts = (\<lambda>ev. accepting_step ev = Some ''extract''),
          handoff_allow_list = [],
          body = (\<lambda>w ev.
            case extract self x w ev of
              (w', out) \<Rightarrow>
                as_completion (if prompts w' = prompts w then 0 else latency (length (prompts w))) (w', out)),
          written = (\<lambda>w ev. fst (extract self x w ev))\<rparr>,
         \<lparr>step_name = ''validate'',
          accepts = (\<lambda>ev. accepting_step ev = Some ''validate''),
          handoff_allow_list = [],
          body = (\<lambda>w ev. as_completion 0 (validate x w ev)),
          written = (\<lambda>w ev. fst (validate x w ev))\<rparr>],
      timeout = limit,
      handoff_of = (\<lambda>u. None)\<rparr>"

section \<open>The multi-agent report workflow (agent_workflow_multi.ipynb)\<close>

text \<open>
  The values the tools keep in the state: strings and dictionaries (in insertion order).
\<close>

datatype pyval = PStr string | PDict "(string \<times> pyval) list"

type_synonym pydict = "(string \<times> pyval) list"

fun dict_set :: "(string \<times> 'v) list \<Rightarrow> string \<Rightarrow> 'v \<Rightarrow> (string \<times> 'v) list" where
  "dict_set [] k v = [(k, v)]"
| "dict_set ((k', v') # d) k v = (if k' = k then (k, v) # d else (k', v') # dict_set d k v)"

text \<open>
  Modelled from the spec: the store's scoped read-modify-write (\<open>ctx.store.edit_state()\<close> in
  the notebook, \<open>scoped_edit(key)\<close> in the specification) belongs to the library. On entry
  the scope gets a snapshot of the value under the key, on normal exit the snapshot is
  committed; when the scope raises, the specification promises a commit or a discard,
  which is the parameter \<open>on_exception\<close>: a committing store writes the snapshot as the
  scope left it, a discarding store keeps what it held on entry. A key that is not there
  raises \<open>KeyError\<close> inside the scope (\<open>ctx_state["state"]\<close>).
\<close>

datatype on_exception = Commit | Discard

definition scoped_edit ::
  "on_exception \<Rightarrow> string \<Rightarrow> (pyval \<Rightarrow> pyval \<times> (exn + 'a)) \<Rightarrow> pydict \<Rightarrow> pydict \<times> (exn + 'a)" where
  "scoped_edit policy key scope st =
     (case map_of st key of
        None \<Rightarrow> (st, Inl KeyError)
      | Some snapshot \<Rightarrow>
          (case scope snapshot of
             (snapshot', Inr v) \<Rightarrow> (dict_set st key snapshot', Inr v)
           | (snapshot', Inl e) \<Rightarrow>
               (case policy of Commit \<Rightarrow> dict_set st key snapshot' | Discard \<Rightarrow> st, Inl e)))"

text \<open>
  The bodies of the \<open>async with\<close> blocks, on the value of \<open>ctx_state["state"]\<close>. Item
  assignment on a string raises \<open>TypeError\<close>.
\<close>

definition add_entry :: "string \<Rightarrow> pyval \<Rightarrow> pyval \<Rightarrow> pyval \<times> (exn + unit)" where
  "add_entry k v state_value =
     (case state_value of
        PDict d \<Rightarrow> (PDict (dict_set d k v), Inr ())
      | PStr s \<Rightarrow> (state_value, Inl TypeError))"

text \<open>A scope that adds an entry and then raises.\<close>

definition add_entry_then_raise :: "string \<Rightarrow> pyval \<Rightarrow> exn \<Rightarrow> pyval \<Rightarrow> pyval \<times> (exn + unit)" where
  "add_entry_then_raise k v e state_value =
     (case add_entry k v state_value of
        (state_value', Inr _) \<Rightarrow> (state_value', Inl e)
      | (state_value', Inl e') \<Rightarrow> (state_value', Inl e'))"

definition record_notes_scope :: "string \<Rightarrow> string \<Rightarrow> pyval \<Rightarrow> pyval \<times> (exn + unit)" where
  "record_notes_scope notes notes_title state_value =
     (case state_value of
        PStr s \<Rightarrow> (state_value, Inl TypeError)
      | PDict d \<Rightarrow>
          let d = (if map_of d ''research_notes'' = None
                   then dict_set d ''research_notes'' (PDict []) else d)
          in (case map_of d ''research_notes'' of
                Some (PDict research_notes) \<Rightarrow>
                  (PDict (dict_set d ''research_notes''
                     (PDict (dict_set research_notes notes_title (PStr notes)))), Inr ())
              | _ \<Rightarrow> (PDict d, Inl TypeError)))"

definition returning :: "string \<Rightarrow> pydict \<times> (exn + unit) \<Rightarrow> pydict \<times> (exn + string)" where
  "returning s res = (case res of (st, Inr _) \<Rightarrow> (st, Inr s) | (st, Inl e) \<Rightarrow> (st, Inl e))"

definition record_notes :: "on_exception \<Rightarrow> pydict \<Rightarrow> string \<Rightarrow> string \<Rightarrow> pydict \<times> (exn + string)" where
  "record_notes policy ctx notes notes_title =
     returning ''Notes recorded.''
       (scoped_edit policy ''state'' (record_notes_scope notes notes_title) ctx)"

definition write_report :: "on_exception \<Rightarrow> pydict \<Rightarrow> string \<Rightarrow> pydict \<times> (exn + string)" where
  "write_report policy ctx report_content =
     returning ''Report written.''
       (scoped_edit policy ''state'' (add_entry ''report_content'' (PStr report_content)) ctx)"

definition review_report :: "on_exception \<Rightarrow> pydict \<Rightarrow> string \<Rightarrow> pydict \<times> (exn + string)" where
  "review_report policy ctx review =
     returning ''Report reviewed.''
       (scoped_edit policy ''state'' (add_entry ''review'' (PStr review)) ctx)"

record FunctionAgent =
  name :: string
  description :: string
  tools :: "string list"
  can_handoff_to :: "string list"

definition research_agent :: FunctionAgent where
  "research_agent =
     \<lparr>name = ''ResearchAgent'',
      description = ''Useful for searching the web for information on a given topic and recording notes on the topic.'',
      tools = [''search_web'', ''record_notes''],
      can_handoff_to = [''WriteAgent'']\<rparr>"

definition write_agent :: FunctionAgent where
  "write_agent =
     \<lparr>name = ''WriteAgent'',
      description = ''Useful for writing a report on a given topic.'',
      tools = [''write_report''],
      can_handoff_to = [''ReviewAgent'', ''ResearchAgent'']\<rparr>"

definition review_agent :: FunctionAgent where
  "review_agent =
     \<lparr>name = ''ReviewAgent'',
      description = ''Useful for reviewing a report and providing feedback.'',
      tools = [''review_report''],
      can_handoff_to = [''WriteAgent'']\<rparr>"

record AgentWorkflow =
  agents :: "FunctionAgent list"
  root_agent :: string
  initial_state :: pydict

definition agent_workflow :: AgentWorkflow where
  "agent_workflow =
     \<lparr>agents = [research_agent, write_agent, review_agent],
      root_agent = name research_agent,
      initial_state =
        [(''research_notes'', PDict []),
         (''report_content'', PStr ''Not written yet.''),
         (''review'', PStr ''Review required.'')]\<rparr>"

text \<open>
  The hand-off tool call of the notebook's output: \<open>to_agent\<close> and \<open>reason\<close>.
\<close>

datatype agent_event = HandoffEvent string string

text \<open>
  Modelled from the spec: an agent workflow as a workflow of the scheduler. Each agent is
  a step with its \<open>can_handoff_to\<close> as allow-list; the root agent accepts the
  \<open>StartEvent\<close>, hand-off events are routed by name. What an agent does when invoked is
  decided by its language model: the parameter \<open>act\<close>, by the agent's name. An agent is
  suspended while its language model answers, before it calls a tool: it has written
  nothing by then.
\<close>

definition agent_step ::
  "(string \<Rightarrow> pydict \<Rightarrow> (agent_event, string) event \<Rightarrow> (pydict, (agent_event, string) event) completion)
     \<Rightarrow> string \<Rightarrow> FunctionAgent \<Rightarrow> (pydict, (agent_event, string) event) step" where
  "agent_step act root a =
     \<lparr>step_name = name a,
      accepts = (\<lambda>ev. case ev of StartEvent _ \<Rightarrow> name a = root | _ \<Rightarrow> False),
      handoff_allow_list = can_handoff_to a,
      body = act (name a),
      written = (\<lambda>st ev. st)\<rparr>"

definition agent_flow ::
  "(string \<Rightarrow> pydict \<Rightarrow> (agent_event, string) event \<Rightarrow> (pydict, (agent_event, string) event) completion)
     \<Rightarrow> nat \<Rightarrow> AgentWorkflow \<Rightarrow> (pydict, agent_event, string) workflow" where
  "agent_flow act limit aw =
     \<lparr>steps = map (agent_step act (root_agent aw)) (agents aw),
      timeout = limit,
      handoff_of = (\<lambda>u. case u of HandoffEvent to_agent reason \<Rightarrow> Some (to_agent, reason))\<rparr>"

definition start_agents :: "AgentWorkflow \<Rightarrow> string \<Rightarrow> (pydict, agent_event, string) run" where
  "start_agents aw user_msg = start [(''user_msg'', user_msg)] [(''state'', PDict (initial_state aw))]"

subsection \<open>Concrete runs\<close>

text \<open>
  The store the notebook's agent workflow starts from, a run of the three agents whose
  review agent asks for a hand-off that its allow-list does not have, and the reflection
  workflow on the scheduler with the completion function answering after ten ticks.
\<close>

definition initial_ctx :: pydict where
  "initial_ctx = [(''state'', PDict (initial_state agent_workflow))]"

definition scripted_act ::
  "string \<Rightarrow> pydict \<Rightarrow> (agent_event, string) event \<Rightarrow> (pydict, (agent_event, string) event) completion" where
  "scripted_act agent st ev =
     (if agent = ''ResearchAgent'' then
        Returns (fst (record_notes Commit st ''ARPANET, 1969'' ''History''))
          [Ev (HandoffEvent ''WriteAgent'' ''notes recorded'')] 1
      else if agent = ''WriteAgent'' then
        Returns (fst (write_report Commit st ''# History''))
          [Ev (HandoffEvent ''ReviewAgent'' ''report written'')] 1
      else
        Returns (fst (review_report Commit st ''More sources needed''))
          [Ev (HandoffEvent ''ResearchAgent'' ''more research'')] 1)"

definition report_flow :: "(pydict, agent_event, string) workflow" where
  "report_flow = agent_flow scripted_act 100 agent_workflow"

definition report_run :: "nat \<Rightarrow> (pydict, agent_event, string) run" where
  "report_run n = (sched_step report_flow None ^^ n) (start_agents agent_workflow ''history of the internet'')"






definition ten_ticks :: "nat \<Rightarrow> nat" where
  "ten_ticks n = 10"

definition two_cars_flow :: "nat \<Rightarrow> (world, reflection_event, string) workflow" where
  "two_cars_flow limit = reflection_flow default_workflow flaky_externals ten_ticks limit"

definition two_cars_start :: "(world, reflection_event, string) run" where
  "two_cars_start = start [(''passage'', ''two cars'')] fresh_world"

section \<open>Properties of the reflection workflow\<close>

lemma run_from_stop: "run_from self x w (StopEvent r) = (w, [], Inr r)"
  by (simp add: run_from.simps)

lemma run_from_invoke:
  assumes "accepting_step ev = Some step" and "invoke self x w ev = (w', Inr ev')"
  shows "run_from self x w ev =
           (case run_from self x w' ev' of
              (w'', invocations, result) \<Rightarrow> (w'', (step, ev, Inr ev') # invocations, result))"
  using assms by (subst run_from.simps) simp

lemma run_from_raise:
  assumes "accepting_step ev = Some step" and "invoke self x w ev = (w', Inl e)"
  shows "run_from self x w ev = (w', [(step, ev, Inl e)], Inl e)"
  using assms by (subst run_from.simps) simp

lemma accepting_step_names:
  "accepting_step ev = Some step \<Longrightarrow> step = ''extract'' \<or> step = ''validate''"
  by (cases ev rule: accepting_step.cases) auto

lemma validate_keeps_retries: "retries (fst (validate x w ev)) = retries w"
  by (auto simp: validate_def retries_def split: event.splits reflection_event.splits option.splits)

lemma extract_at_ceiling:
  "max_retries self \<le> retries w \<Longrightarrow> extract self x w ev = (w, Inr (StopEvent ''Max retries reached''))"
  by (simp add: extract_def retries_def)

lemma extract_below_ceiling:
  assumes "retries w < max_retries self"
  shows "retries (fst (extract self x w ev)) = retries w + 1"
    and "snd (extract self x w ev) \<noteq> Inr (StopEvent ''Max retries reached'')"
  using assms
  by (auto simp: extract_def retries_def complete_extraction_def Let_def store_get_def store_set_def
      split: event.splits reflection_event.splits option.splits)

lemma invoke_counts:
  assumes "accepting_step ev = Some step" and "invoke self x w ev = (w', out)"
  shows "retries w' = retries w + (if is_attempt (step, ev, out) then 1 else 0)"
proof (cases "step = ''validate''")
  case True
  with assms validate_keeps_retries [of x w ev] show ?thesis by (simp add: invoke_def)
next
  case False
  with assms accepting_step_names have n: "step = ''extract''" by blast
  with assms have e: "extract self x w ev = (w', out)" by (simp add: invoke_def)
  show ?thesis
  proof (cases "retries w < max_retries self")
    case True
    from extract_below_ceiling [OF True, of x ev] e n show ?thesis by simp
  next
    case False
    with extract_at_ceiling [of self w x ev] e n show ?thesis by simp
  qed
qed

lemma run_from_counts:
  "run_from self x w ev = (w', invocations, result)
     \<Longrightarrow> retries w' = retries w + int (extraction_attempts invocations)"
proof (induction self x w ev arbitrary: w' invocations result rule: run_from.induct)
  case (1 self x w ev)
  show ?case
  proof (cases "accepting_step ev")
    case None
    with "1.prems" show ?thesis by (simp add: run_from.simps extraction_attempts_def)
  next
    case (Some step)
    obtain w1 out where inv: "invoke self x w ev = (w1, out)" by (cases "invoke self x w ev")
    note cnt = invoke_counts [OF Some inv]
    show ?thesis
    proof (cases out)
      case (Inl e)
      with "1.prems" Some inv cnt show ?thesis
        by (auto simp: run_from_raise extraction_attempts_def)
    next
      case (Inr ev')
      obtain w2 tr res where rest: "run_from self x w1 ev' = (w2, tr, res)"
        by (cases "run_from self x w1 ev'")
      from "1.IH" [OF Some inv [symmetric] Inr rest] have "retries w2 = retries w1 + int (extraction_attempts tr)" .
      with "1.prems" Some inv Inr rest cnt show ?thesis
        by (auto simp: run_from_invoke extraction_attempts_def)
    qed
  qed
qed

lemma run_from_bound:
  "run_from self x w ev = (w', invocations, result)
     \<Longrightarrow> retries w' \<le> max (retries w) (max_retries self)"
proof (induction self x w ev arbitrary: w' invocations result rule: run_from.induct)
  case (1 self x w ev)
  show ?case
  proof (cases "accepting_step ev")
    case None
    with "1.prems" show ?thesis by (simp add: run_from.simps)
  next
    case (Some step)
    obtain w1 out where inv: "invoke self x w ev = (w1, out)" by (cases "invoke self x w ev")
    have step: "retries w1 \<le> max (retries w) (max_retries self)"
    proof (cases "step = ''validate''")
      case True
      with Some inv validate_keeps_retries [of x w ev] show ?thesis by (simp add: invoke_def)
    next
      case False
      with Some inv have e: "extract self x w ev = (w1, out)" by (simp add: invoke_def)
      show ?thesis
      proof (cases "retries w < max_retries self")
        case True
        from extract_below_ceiling(1) [OF True, of x ev] e True show ?thesis by simp
      next
        case False
        with extract_at_ceiling [of self w x ev] e show ?thesis by simp
      qed
    qed
    show ?thesis
    proof (cases out)
      case (Inl e)
      with "1.prems" Some inv step show ?thesis by (auto simp: run_from_raise)
    next
      case (Inr ev')
      obtain w2 tr res where rest: "run_from self x w1 ev' = (w2, tr, res)"
        by (cases "run_from self x w1 ev'")
      from "1.IH" [OF Some inv [symmetric] Inr rest]
      have "retries w2 \<le> max (retries w1) (max_retries self)" .
      with "1.prems" Some inv Inr rest step show ?thesis
        by (auto simp: run_from_invoke)
    qed
  qed
qed

lemma invoke_never_start:
  "accepting_step ev = Some step \<Longrightarrow> invoke self x w ev = (w', Inr ev') \<Longrightarrow> ev' \<noteq> StartEvent kw"
  by (auto simp: invoke_def extract_def validate_def complete_extraction_def Let_def
      split: if_splits event.splits reflection_event.splits option.splits)

lemma run_from_reflective:
  "run_from self x w ev = (w', invocations, result) \<Longrightarrow> (\<forall>kw. ev \<noteq> StartEvent kw)
     \<Longrightarrow> reflective_retries invocations = extraction_attempts invocations"
proof (induction self x w ev arbitrary: w' invocations result rule: run_from.induct)
  case (1 self x w ev)
  show ?case
  proof (cases "accepting_step ev")
    case None
    with "1.prems" show ?thesis
      by (simp add: run_from.simps extraction_attempts_def reflective_retries_def)
  next
    case (Some step)
    obtain w1 out where inv: "invoke self x w ev = (w1, out)" by (cases "invoke self x w ev")
    have same: "is_reflective_retry (step, ev, out) = is_attempt (step, ev, out)"
      using "1.prems"(2) Some by (cases ev rule: accepting_step.cases) auto
    show ?thesis
    proof (cases out)
      case (Inl e)
      with "1.prems" Some inv same show ?thesis
        by (auto simp: run_from_raise extraction_attempts_def reflective_retries_def
            simp del: is_attempt.simps is_reflective_retry.simps)
    next
      case (Inr ev')
      obtain w2 tr res where rest: "run_from self x w1 ev' = (w2, tr, res)"
        by (cases "run_from self x w1 ev'")
      from invoke_never_start [OF Some] inv Inr have "\<forall>kw. ev' \<noteq> StartEvent kw" by blast
      from "1.IH" [OF Some inv [symmetric] Inr rest this]
      have "reflective_retries tr = extraction_attempts tr" .
      with "1.prems" Some inv Inr rest same show ?thesis
        by (auto simp: run_from_invoke extraction_attempts_def reflective_retries_def
            simp del: is_attempt.simps is_reflective_retry.simps)
    qed
  qed
qed

lemma REFLECTION_PROMPT_nonempty: "REFLECTION_PROMPT wrong_answer error \<noteq> []"
  by (simp add: REFLECTION_PROMPT_def)

lemma validate_accepts:
  "model_validate_json x output = None
     \<Longrightarrow> validate x w (Ev (ExtractionDone output passage)) = (w, Inr (StopEvent output))"
  by (simp add: validate_def)

lemma validate_rejects:
  "model_validate_json x output = Some e
     \<Longrightarrow> validate x w (Ev (ExtractionDone output passage)) =
         (w\<lparr>stdout := stdout w @ [''Validation failed, retrying...'']\<rparr>,
          Inr (Ev (ValidationErrorEvent e output passage)))"
  by (simp add: validate_def)

lemma extract_reflects:
  assumes "retries w < max_retries self"
  shows "extract self x w (Ev (ValidationErrorEvent e wrong passage)) =
           (w\<lparr>store := (store w)(''retries'' \<mapsto> retries w + 1),
              prompts := prompts w @ [EXTRACTION_PROMPT passage (schema_json x) @ REFLECTION_PROMPT wrong e]\<rparr>,
            Inr (Ev (ExtractionDone
              (acomplete x (length (prompts w))
                 (EXTRACTION_PROMPT passage (schema_json x) @ REFLECTION_PROMPT wrong e)) passage)))"
  using assms
  by (simp add: extract_def retries_def complete_extraction_def Let_def store_set_def
      REFLECTION_PROMPT_nonempty)

lemma extract_starts:
  assumes "retries w < max_retries self" and "map_of kwargs ''passage'' = Some passage"
    and "passage \<noteq> []"
  shows "extract self x w (StartEvent kwargs) =
           (w\<lparr>store := (store w)(''retries'' \<mapsto> retries w + 1),
              prompts := prompts w @ [EXTRACTION_PROMPT passage (schema_json x)]\<rparr>,
            Inr (Ev (ExtractionDone
              (acomplete x (length (prompts w)) (EXTRACTION_PROMPT passage (schema_json x))) passage)))"
  using assms
  by (simp add: extract_def retries_def complete_extraction_def Let_def store_set_def)

lemma run_from_extraction_done:
  assumes rej: "\<forall>j<k. model_validate_json x (output_at x p j) \<noteq> None"
    and acc: "model_validate_json x (output_at x p k) = None"
  shows "i \<le> k \<Longrightarrow> retries w = int i + 1 \<Longrightarrow> length (prompts w) = Suc i \<Longrightarrow> int i < max_retries self
     \<Longrightarrow> snd (snd (run_from self x w (Ev (ExtractionDone (output_at x p i) p)))) =
          Inr (if int k < max_retries self then output_at x p k else ''Max retries reached'')"
proof (induction "k - i" arbitrary: i w)
  case 0
  then have "i = k" by simp
  with 0 acc show ?case
    by (simp add: run_from_invoke [where step = "''validate''"] invoke_def validate_accepts run_from_stop)
next
  case (Suc n)
  then have lt: "i < k" by simp
  with rej obtain e where e: "model_validate_json x (output_at x p i) = Some e" by auto
  let ?w1 = "w\<lparr>stdout := stdout w @ [''Validation failed, retrying...'']\<rparr>"
  let ?ve = "Ev (ValidationErrorEvent e (output_at x p i) p) :: (reflection_event, string) event"
  have r1: "retries ?w1 = int i + 1" using Suc.prems by (simp add: retries_def)
  have v: "run_from self x w (Ev (ExtractionDone (output_at x p i) p)) =
            (case run_from self x ?w1 ?ve of
               (w'', invocations, result) \<Rightarrow>
                 (w'', (''validate'', Ev (ExtractionDone (output_at x p i) p), Inr ?ve) # invocations, result))"
    by (rule run_from_invoke) (simp_all add: invoke_def validate_rejects [OF e])
  show ?case
  proof (cases "int (Suc i) < max_retries self")
    case False
    then have "extract self x ?w1 ?ve = (?w1, Inr (StopEvent ''Max retries reached''))"
      using r1 by (intro extract_at_ceiling) simp
    then have "run_from self x ?w1 ?ve =
        (?w1, [(''extract'', ?ve, Inr (StopEvent ''Max retries reached''))], Inr ''Max retries reached'')"
      by (simp add: run_from_invoke [where step = "''extract''"] invoke_def run_from_stop)
    with v False lt show ?thesis by simp
  next
    case True
    let ?pr = "EXTRACTION_PROMPT p (schema_json x) @ REFLECTION_PROMPT (output_at x p i) e"
    let ?w2 = "?w1\<lparr>store := (store ?w1)(''retries'' \<mapsto> retries ?w1 + 1), prompts := prompts ?w1 @ [?pr]\<rparr>"
    have out: "acomplete x (length (prompts ?w1)) ?pr = output_at x p (Suc i)"
      using e Suc.prems by simp
    have ex: "extract self x ?w1 ?ve = (?w2, Inr (Ev (ExtractionDone (output_at x p (Suc i)) p)))"
      using extract_reflects [of ?w1 self x e "output_at x p i" p] True r1 out by simp
    have step: "run_from self x ?w1 ?ve =
        (case run_from self x ?w2 (Ev (ExtractionDone (output_at x p (Suc i)) p)) of
           (w'', invocations, result) \<Rightarrow>
             (w'', (''extract'', ?ve, Inr (Ev (ExtractionDone (output_at x p (Suc i)) p))) # invocations, result))"
      by (rule run_from_invoke) (simp_all add: invoke_def ex)
    have "snd (snd (run_from self x ?w2 (Ev (ExtractionDone (output_at x p (Suc i)) p)))) =
          Inr (if int k < max_retries self then output_at x p k else ''Max retries reached'')"
    proof (rule Suc.hyps(1))
      show "n = k - Suc i" using Suc.hyps(2) by simp
      show "Suc i \<le> k" using lt by simp
      show "retries ?w2 = int (Suc i) + 1" using r1 by (simp add: retries_def store_get_def)
      show "length (prompts ?w2) = Suc (Suc i)" using Suc.prems by simp
      show "int (Suc i) < max_retries self" by (rule True)
    qed
    with v step show ?thesis by (simp add: split_beta)
  qed
qed

lemma run_result:
  assumes "map_of kwargs ''passage'' = Some passage" and "passage \<noteq> []"
    and rej: "\<forall>j<k. model_validate_json x (output_at x passage j) \<noteq> None"
    and acc: "model_validate_json x (output_at x passage k) = None"
  shows "snd (snd (run self x kwargs)) =
           Inr (if int k < max_retries self then output_at x passage k else ''Max retries reached'')"
proof (cases "0 < max_retries self")
  case False
  then have "extract self x fresh_world (StartEvent kwargs) = (fresh_world, Inr (StopEvent ''Max retries reached''))"
    by (intro extract_at_ceiling) (simp add: retries_def fresh_world_def store_get_def)
  then have "run self x kwargs =
      (fresh_world, [(''extract'', StartEvent kwargs, Inr (StopEvent ''Max retries reached''))], Inr ''Max retries reached'')"
    by (simp add: run_def run_from_invoke [where step = "''extract''"] invoke_def run_from_stop)
  with False show ?thesis by simp
next
  case True
  let ?pr = "EXTRACTION_PROMPT passage (schema_json x)"
  let ?w1 = "fresh_world\<lparr>store := (store fresh_world)(''retries'' \<mapsto> retries fresh_world + 1),
               prompts := prompts fresh_world @ [?pr]\<rparr>"
  have r0: "retries fresh_world = 0" by (simp add: retries_def fresh_world_def store_get_def)
  have ex: "extract self x fresh_world (StartEvent kwargs) = (?w1, Inr (Ev (ExtractionDone (output_at x passage 0) passage)))"
    using extract_starts [of fresh_world self kwargs passage x] True r0 assms(1,2)
    by (simp add: fresh_world_def)
  have step: "run self x kwargs =
      (case run_from self x ?w1 (Ev (ExtractionDone (output_at x passage 0) passage)) of
         (w'', invocations, result) \<Rightarrow>
           (w'', (''extract'', StartEvent kwargs, Inr (Ev (ExtractionDone (output_at x passage 0) passage))) # invocations, result))"
    unfolding run_def by (rule run_from_invoke) (simp_all add: invoke_def ex)
  have "snd (snd (run_from self x ?w1 (Ev (ExtractionDone (output_at x passage 0) passage)))) =
          Inr (if int k < max_retries self then output_at x passage k else ''Max retries reached'')"
    using rej acc
  proof (rule run_from_extraction_done)
    show "0 \<le> k" by simp
    show "retries ?w1 = int 0 + 1" by (simp add: retries_def store_get_def fresh_world_def)
    show "length (prompts ?w1) = Suc 0" by (simp add: fresh_world_def)
    show "int 0 < max_retries self" using True by simp
  qed
  with step show ?thesis by (simp add: split_beta)
qed

lemma invoke_prompts:
  assumes "accepting_step ev = Some step" and "invoke self x w ev = (w', out)"
  shows "length (prompts w') \<le> length (prompts w) + (if is_attempt (step, ev, out) then 1 else 0)"
proof (cases "step = ''validate''")
  case True
  with assms show ?thesis
    by (auto simp: invoke_def validate_def split: event.splits reflection_event.splits option.splits)
next
  case False
  with assms accepting_step_names have n: "step = ''extract''" by blast
  with assms have e: "extract self x w ev = (w', out)" by (simp add: invoke_def)
  show ?thesis
  proof (cases "retries w < max_retries self")
    case True
    from extract_below_ceiling(2) [OF True, of x ev] e n have "is_attempt (step, ev, out)" by simp
    moreover from e have "length (prompts w') \<le> length (prompts w) + 1"
      by (auto simp: extract_def complete_extraction_def Let_def
          split: if_splits event.splits reflection_event.splits option.splits)
    ultimately show ?thesis by simp
  next
    case False
    with extract_at_ceiling [of self w x ev] e show ?thesis by simp
  qed
qed

lemma run_from_prompts:
  "run_from self x w ev = (w', invocations, result)
     \<Longrightarrow> length (prompts w') \<le> length (prompts w) + extraction_attempts invocations"
proof (induction self x w ev arbitrary: w' invocations result rule: run_from.induct)
  case (1 self x w ev)
  show ?case
  proof (cases "accepting_step ev")
    case None
    with "1.prems" show ?thesis by (simp add: run_from.simps extraction_attempts_def)
  next
    case (Some step)
    obtain w1 out where inv: "invoke self x w ev = (w1, out)" by (cases "invoke self x w ev")
    note cnt = invoke_prompts [OF Some inv]
    show ?thesis
    proof (cases out)
      case (Inl e)
      with "1.prems" Some inv cnt show ?thesis
        by (auto simp: run_from_raise extraction_attempts_def simp del: is_attempt.simps)
    next
      case (Inr ev')
      obtain w2 tr res where rest: "run_from self x w1 ev' = (w2, tr, res)"
        by (cases "run_from self x w1 ev'")
      from "1.IH" [OF Some inv [symmetric] Inr rest]
      have "length (prompts w2) \<le> length (prompts w1) + extraction_attempts tr" .
      with "1.prems" Some inv Inr rest cnt show ?thesis
        by (auto simp: run_from_invoke extraction_attempts_def simp del: is_attempt.simps)
    qed
  qed
qed

lemma run_first_attempt:
  assumes "run self x kwargs = (w, invocations, result)" and "0 < max_retries self"
  shows "extraction_attempts invocations = Suc (reflective_retries invocations)"
proof -
  have r0: "retries fresh_world < max_retries self"
    using assms(2) by (simp add: retries_def fresh_world_def store_get_def)
  obtain w1 out where ex: "extract self x fresh_world (StartEvent kwargs) = (w1, out)"
    by (cases "extract self x fresh_world (StartEvent kwargs)")
  with extract_below_ceiling(2) [OF r0, of x "StartEvent kwargs"]
  have att: "out \<noteq> Inr (StopEvent ''Max retries reached'')" by simp
  have inv: "invoke self x fresh_world (StartEvent kwargs) = (w1, out)"
    using ex by (simp add: invoke_def)
  show ?thesis
  proof (cases out)
    case (Inl e)
    with assms(1) inv show ?thesis
      by (auto simp: run_def run_from_raise [where step = "''extract''"]
          extraction_attempts_def reflective_retries_def)
  next
    case (Inr ev')
    obtain w2 tr res where rest: "run_from self x w1 ev' = (w2, tr, res)"
      by (cases "run_from self x w1 ev'")
    have "\<forall>kw. ev' \<noteq> StartEvent kw"
      using invoke_never_start [of "StartEvent kwargs" "''extract''" self x fresh_world w1 ev'] inv Inr
      by simp
    from run_from_reflective [OF rest this] have "reflective_retries tr = extraction_attempts tr" .
    with assms(1) inv Inr rest att show ?thesis
      by (auto simp: run_def run_from_invoke [where step = "''extract''"]
          extraction_attempts_def reflective_retries_def)
  qed
qed


text \<open>
  Claim C1, as amended. For a run whose \<open>StartEvent\<close> carries a non-empty passage: if
  validation rejects the extraction outputs of the first \<open>k\<close> attempts and accepts the output
  of attempt \<open>k + 1\<close>, the run ends with that validated output as its result when
  \<open>k < max_retries\<close>, and with the result "Max retries reached" when \<open>k \<ge> max_retries\<close>.
  The run always ends: \<open>run\<close> is a total function.
\<close>
theorem reflection_retry_loop:
  assumes "map_of kwargs ''passage'' = Some passage" and "passage \<noteq> []"
    and "\<forall>j<k. model_validate_json x (output_at x passage j) \<noteq> None"
    and "model_validate_json x (output_at x passage k) = None"
  shows "snd (snd (run self x kwargs)) =
           Inr (if int k < max_retries self then output_at x passage k else ''Max retries reached'')"
  using assms by (rule run_result)

text \<open>
  The notebook's own run: the first output is rejected, the second accepted; with the
  ceiling 3 the result is the second output, with the ceiling 1 it is "Max retries reached".
\<close>

theorem reflection_retry_loop_witness:
  "model_validate_json flaky_externals (output_at flaky_externals ''two cars'' 0) \<noteq> None
   \<and> model_validate_json flaky_externals (output_at flaky_externals ''two cars'' 1) = None
   \<and> output_at flaky_externals ''two cars'' 1 = ''{}''
   \<and> snd (snd (run default_workflow flaky_externals [(''passage'', ''two cars'')])) = Inr ''{}''
   \<and> snd (snd (run \<lparr>max_retries = 1\<rparr> flaky_externals [(''passage'', ''two cars'')])) = Inr ''Max retries reached''"
proof -
  have p: "map_of [(''passage'', ''two cars'')] ''passage'' = Some ''two cars''" "''two cars'' \<noteq> []"
    by simp_all
  have rej: "\<forall>j<1. model_validate_json flaky_externals (output_at flaky_externals ''two cars'' j) \<noteq> None"
    by (simp add: flaky_externals_def)
  have acc: "model_validate_json flaky_externals (output_at flaky_externals ''two cars'' 1) = None"
    by (simp add: flaky_externals_def)
  have out: "output_at flaky_externals ''two cars'' 1 = ''{}''"
    by (simp add: flaky_externals_def)
  from reflection_retry_loop [OF p rej acc, of default_workflow]
    reflection_retry_loop [OF p rej acc, of "\<lparr>max_retries = 1\<rparr>"] rej acc out
  show ?thesis by (simp add: default_workflow_def)
qed

text \<open>
  Claim C1 as stated does not ask for a passage. With the default ceiling 3 and a
  validation that accepts every output (\<open>k = 0\<close>), a run whose passage is empty or missing
  ends with "Please provide some text in input", which is not the validated output.
\<close>

theorem reflection_retry_loop_counterexample:
  "model_validate_json accepting_externals (output_at accepting_externals [] 0) = None
   \<and> int 0 < max_retries default_workflow
   \<and> snd (snd (run default_workflow accepting_externals [(''passage'', [])])) =
       Inr ''Please provide some text in input''
   \<and> snd (snd (run default_workflow accepting_externals [(''passage'', [])])) \<noteq>
       Inr (output_at accepting_externals [] 0)
   \<and> snd (snd (run default_workflow accepting_externals [])) = Inr ''Please provide some text in input''"
  by (simp add: run_def run_from.simps invoke_def extract_def default_workflow_def
      accepting_externals_def fresh_world_def store_get_def store_set_def Let_def)



text \<open>
  Claim C10. When the \<open>StartEvent\<close> of a run carries no passage (the key is missing, or its
  value is empty), \<open>extract\<close> returns at once a \<open>StopEvent\<close> with the result
  "Please provide some text in input"; no prompt is sent to the completion function, and
  the counter \<open>retries\<close> of the store, absent before, is 1 afterwards. So the run is that
  one invocation: it ends with this result, no completion call and the counter at 1. The
  ceiling is checked first, so this is for a positive \<open>max_retries\<close>, as the class's value 3.
\<close>
theorem extract_without_passage:
  assumes "map_of kwargs ''passage'' = None \<or> map_of kwargs ''passage'' = Some []"
    and "0 < max_retries self"
  shows "(store w ''retries'' = None \<longrightarrow>
            extract self x w (StartEvent kwargs) =
              (w\<lparr>store := (store w)(''retries'' \<mapsto> 1)\<rparr>,
               Inr (StopEvent ''Please provide some text in input''))
            \<and> prompts (fst (extract self x w (StartEvent kwargs))) = prompts w)
       \<and> run self x kwargs =
           (fresh_world\<lparr>store := (store fresh_world)(''retries'' \<mapsto> 1)\<rparr>,
            [(''extract'', StartEvent kwargs, Inr (StopEvent ''Please provide some text in input''))],
            Inr ''Please provide some text in input'')
       \<and> prompts (fst (run self x kwargs)) = []
       \<and> retries (fst (run self x kwargs)) = 1"
proof -
  have step: "extract self x w (StartEvent kwargs) =
      (w\<lparr>store := (store w)(''retries'' \<mapsto> 1)\<rparr>, Inr (StopEvent ''Please provide some text in input''))"
    if "store w ''retries'' = None" for w
    using assms that by (auto simp: extract_def store_get_def store_set_def Let_def)
  have "store fresh_world ''retries'' = None" by (simp add: fresh_world_def)
  from step [OF this]
  have r: "run self x kwargs =
           (fresh_world\<lparr>store := (store fresh_world)(''retries'' \<mapsto> 1)\<rparr>,
            [(''extract'', StartEvent kwargs, Inr (StopEvent ''Please provide some text in input''))],
            Inr ''Please provide some text in input'')"
    by (simp add: run_def run_from_invoke [where step = "''extract''"] invoke_def run_from_stop)
  from step r show ?thesis by (simp add: fresh_world_def retries_def store_get_def)
qed

theorem extract_without_passage_witness:
  "map_of ([] :: (string \<times> string) list) ''passage'' = None
   \<and> 0 < max_retries default_workflow
   \<and> store fresh_world ''retries'' = None
   \<and> snd (extract default_workflow accepting_externals fresh_world (StartEvent [])) =
       Inr (StopEvent ''Please provide some text in input'')
   \<and> prompts (fst (extract default_workflow accepting_externals fresh_world (StartEvent []))) = []
   \<and> store (fst (extract default_workflow accepting_externals fresh_world (StartEvent []))) ''retries'' = Some 1
   \<and> snd (snd (run default_workflow accepting_externals [(''passage'', [])])) =
       Inr ''Please provide some text in input''
   \<and> map fst (fst (snd (run default_workflow accepting_externals [(''passage'', [])]))) = [''extract'']
   \<and> retries (fst (run default_workflow accepting_externals [(''passage'', [])])) = 1"
proof -
  have h: "0 < max_retries default_workflow" "store fresh_world ''retries'' = None"
    by (simp_all add: default_workflow_def fresh_world_def)
  have m1: "map_of ([] :: (string \<times> string) list) ''passage'' = None \<or> map_of ([] :: (string \<times> string) list) ''passage'' = Some []"
    and m2: "map_of [(''passage'', [])] ''passage'' = None \<or> map_of [(''passage'', [])] ''passage'' = Some []"
    by simp_all
  from extract_without_passage [OF m1 h(1), of fresh_world accepting_externals]
    extract_without_passage [OF m2 h(1), of fresh_world accepting_externals] h
  show ?thesis by (simp add: fresh_world_def retries_def store_get_def)
qed

text \<open>
  Claim C9. Every invocation of \<open>extract\<close> that gets past the ceiling check adds one to the
  counter \<open>retries\<close>, whatever the event, the first invocation on the \<open>StartEvent\<close> included;
  the invocations that do not get past it are those that return the "Max retries reached"
  stop. So at the end of a run the counter equals the number of extraction attempts made, a
  ceiling \<open>max_retries = m\<close> allows at most \<open>m\<close> attempts, that is at most \<open>m - 1\<close>
  reflective retries after the first attempt, and the completion function is called at
  most once per attempt.
\<close>
theorem retries_counts_extraction_attempts:
  assumes "run self x kwargs = (w, invocations, result)"
  shows "(\<forall>w0 ev. retries w0 < max_retries self
            \<longrightarrow> retries (fst (extract self x w0 ev)) = retries w0 + 1)
       \<and> (\<forall>w0 ev. snd (extract self x w0 ev) = Inr (StopEvent ''Max retries reached'')
            \<longleftrightarrow> max_retries self \<le> retries w0)
       \<and> retries w = int (extraction_attempts invocations)
       \<and> (0 \<le> max_retries self \<longrightarrow> int (extraction_attempts invocations) \<le> max_retries self)
       \<and> (0 < max_retries self \<longrightarrow> int (reflective_retries invocations) \<le> max_retries self - 1)
       \<and> length (prompts w) \<le> extraction_attempts invocations"
proof -
  have r0: "retries fresh_world = 0" by (simp add: retries_def fresh_world_def store_get_def)
  from assms have rf: "run_from self x fresh_world (StartEvent kwargs) = (w, invocations, result)"
    by (simp add: run_def)
  have count: "retries w = int (extraction_attempts invocations)"
    using run_from_counts [OF rf] r0 by simp
  have bound: "retries w \<le> max 0 (max_retries self)"
    using run_from_bound [OF rf] r0 by simp
  have calls: "length (prompts w) \<le> extraction_attempts invocations"
    using run_from_prompts [OF rf] by (simp add: fresh_world_def)
  have refl: "int (reflective_retries invocations) \<le> max_retries self - 1" if "0 < max_retries self"
    using run_first_attempt [OF assms that] count bound that by simp
  have sentinel: "snd (extract self x w0 ev) = Inr (StopEvent ''Max retries reached'')
      \<longleftrightarrow> max_retries self \<le> retries w0" for w0 ev
    using extract_at_ceiling [of self w0 x ev] extract_below_ceiling(2) [of w0 self x ev]
    by (cases "retries w0 < max_retries self") simp_all
  from count bound calls refl extract_below_ceiling(1) sentinel show ?thesis by auto
qed

theorem retries_counts_extraction_attempts_witness:
  "retries (fst (extract default_workflow flaky_externals fresh_world (StartEvent [(''passage'', ''two cars'')]))) = 1
   \<and> retries (fst (run default_workflow flaky_externals [(''passage'', ''two cars'')])) = 2
   \<and> extraction_attempts (fst (snd (run default_workflow flaky_externals [(''passage'', ''two cars'')]))) = 2
   \<and> reflective_retries (fst (snd (run default_workflow flaky_externals [(''passage'', ''two cars'')]))) = 1
   \<and> length (prompts (fst (run default_workflow flaky_externals [(''passage'', ''two cars'')]))) = 2"
proof -
  obtain w invocations result
    where r: "run default_workflow flaky_externals [(''passage'', ''two cars'')] = (w, invocations, result)"
    by (cases "run default_workflow flaky_externals [(''passage'', ''two cars'')]")
  have ev: "run default_workflow flaky_externals [(''passage'', ''two cars'')] =
     (fst (run default_workflow flaky_externals [(''passage'', ''two cars'')]),
      [(''extract'', StartEvent [(''passage'', ''two cars'')], Inr (Ev (ExtractionDone ''Here are the cars'' ''two cars''))),
       (''validate'', Ev (ExtractionDone ''Here are the cars'' ''two cars''), Inr (Ev (ValidationErrorEvent ''Invalid JSON'' ''Here are the cars'' ''two cars''))),
       (''extract'', Ev (ValidationErrorEvent ''Invalid JSON'' ''Here are the cars'' ''two cars''), Inr (Ev (ExtractionDone ''{}'' ''two cars''))),
       (''validate'', Ev (ExtractionDone ''{}'' ''two cars''), Inr (StopEvent ''{}''))],
      Inr ''{}'')"
    by (simp add: run_def run_from.simps invoke_def extract_def validate_def
        complete_extraction_def default_workflow_def flaky_externals_def fresh_world_def
        store_get_def store_set_def Let_def)
  have len: "length (prompts (fst (run default_workflow flaky_externals [(''passage'', ''two cars'')]))) = 2"
    by (simp add: run_def run_from.simps invoke_def extract_def validate_def
        complete_extraction_def default_workflow_def flaky_externals_def fresh_world_def
        store_get_def store_set_def Let_def)
  have att: "extraction_attempts invocations = 2" "reflective_retries invocations = 1"
    using r ev by (simp_all add: extraction_attempts_def reflective_retries_def)
  from retries_counts_extraction_attempts [OF r] att r len
  show ?thesis
    by (simp add: default_workflow_def fresh_world_def retries_def store_get_def)
qed

section \<open>Properties of the story workflow\<close>

lemma materialize_frame:
  "materialize w bs = (w', as) \<Longrightarrow>
     ctx_store w' = ctx_store w \<and> heap_lists w' = heap_lists w
     \<and> next_addr w' = next_addr w + length bs
     \<and> (\<forall>a. a < next_addr w \<longrightarrow> heap_blocks w' a = heap_blocks w a)
     \<and> inputs_read w' = inputs_read w"
proof (induction bs arbitrary: w w' as)
  case Nil
  then show ?case by simp
next
  case (Cons b bs)
  obtain w1 a where a: "alloc_block w b = (w1, a)" by (cases "alloc_block w b")
  obtain w2 as2 where m: "materialize w1 bs = (w2, as2)" by (cases "materialize w1 bs")
  from Cons.prems a m have w': "w' = w2" by simp
  from a have w1: "ctx_store w1 = ctx_store w" "heap_lists w1 = heap_lists w"
    "next_addr w1 = Suc (next_addr w)" "inputs_read w1 = inputs_read w"
    "\<forall>c. c < next_addr w \<longrightarrow> heap_blocks w1 c = heap_blocks w c"
    by (auto simp: alloc_block_def)
  from Cons.IH [OF m] w1 w' show ?case by auto
qed

lemma materialize_deref:
  "materialize w bs = (w', as) \<Longrightarrow>
     List.map_filter (heap_blocks w') as = bs \<and> (\<forall>a \<in> set as. a < next_addr w')"
proof (induction bs arbitrary: w w' as)
  case Nil
  then show ?case by (simp add: List.map_filter_simps)
next
  case (Cons b bs)
  obtain w1 a where a: "alloc_block w b = (w1, a)" by (cases "alloc_block w b")
  obtain w2 as2 where m: "materialize w1 bs = (w2, as2)" by (cases "materialize w1 bs")
  from Cons.prems a m have eq: "w' = w2" "as = a # as2" by simp_all
  from a have a1: "a = next_addr w" "heap_blocks w1 a = Some b" "next_addr w1 = Suc (next_addr w)"
    by (auto simp: alloc_block_def)
  from materialize_frame [OF m] a1 have "heap_blocks w2 a = Some b" "a < next_addr w2" by auto
  with Cons.IH [OF m] eq show ?case by (simp add: List.map_filter_simps)
qed

lemma ctx_get_store:
  "ctx_get w key = Some (w', a) \<Longrightarrow> ctx_store w' = ctx_store w \<and> inputs_read w' = inputs_read w"
  by (auto simp: ctx_get_def alloc_list_def split: option.splits stored.splits prod.splits
      dest: materialize_frame)

lemma blocks_read_snapshot:
  assumes "ctx_store w ''blocks'' = Some (Snapshot bs)"
  shows "blocks_read w = Some bs"
proof -
  obtain w1 as where m: "materialize w bs = (w1, as)" by (cases "materialize w bs")
  from materialize_deref [OF m] have d: "List.map_filter (heap_blocks w1) as = bs" by simp
  from assms m have "ctx_get w ''blocks'' = Some (alloc_list w1 as)" by (simp add: ctx_get_def)
  moreover have "deref (fst (alloc_list w1 as)) (snd (alloc_list w1 as)) = bs"
    using d by (simp add: alloc_list_def deref_def list_at_def)
  ultimately show ?thesis by (simp add: blocks_read_def split_beta)
qed

lemma blocks_read_reference:
  "ctx_store w ''blocks'' = Some (Reference L) \<Longrightarrow> blocks_read w = Some (deref w L)"
  by (simp add: blocks_read_def ctx_get_def)

lemma ctx_set_other: "key \<noteq> key' \<Longrightarrow> ctx_store (ctx_set sem w key a) key' = ctx_store w key'"
  by (simp add: ctx_set_def)

lemma prompt_human_keeps_blocks_key:
  "ctx_store (fst (prompt_human sem x w ev)) ''blocks'' = ctx_store w ''blocks''"
  by (auto simp: prompt_human_def Let_def ctx_set_def
      split: event.splits story_event.splits option.splits prod.splits dest: ctx_get_store)

lemma prompt_human_sets_block_key:
  "prompt_human sem x w ev = (w', Inr ev') \<Longrightarrow> ctx_store w' ''block'' \<noteq> None"
  by (auto simp: prompt_human_def Let_def ctx_set_def
      split: event.splits story_event.splits option.splits prod.splits if_splits)

lemma map_filter_snoc:
  "List.map_filter f (xs @ [x]) = List.map_filter f xs @ (case f x of None \<Rightarrow> [] | Some y \<Rightarrow> [y])"
  by (induction xs) (auto simp: List.map_filter_simps split: option.splits)

lemma prompt_human_by_reference:
  fixes x :: story_externals
  assumes "ctx_store w ''blocks'' = Some (Reference L)" and "heap_lists w L = Some l" and "l \<noteq> []"
    and "last l = block" and "heap_blocks w block = Some b"
  defines "b' \<equiv> b\<lparr>choice := Some (read_input x (inputs_read w) (human_prompt b))\<rparr>"
  shows "prompt_human sem x w (Ev (NewBlockEvent block)) =
           (ctx_set sem (w\<lparr>inputs_read := Suc (inputs_read w),
                           heap_blocks := (heap_blocks w)(block \<mapsto> b'),
                           heap_lists := (heap_lists w)(L \<mapsto> l)\<rparr>) ''block'' L,
            Inr (Ev (HumanChoiceEvent (block_id b))))"
proof -
  have "l[length l - 1 := block] = l"
    using assms(3,4) by (metis last_conv_nth list_update_id)
  with assms show ?thesis
    by (simp add: prompt_human_def Let_def ctx_get_def list_at_def)
qed

lemma ctx_get_blocks:
  "ctx_get w key = Some (w', L) \<Longrightarrow>
     next_addr w \<le> next_addr w' \<and> (\<forall>a. a < next_addr w \<longrightarrow> heap_blocks w' a = heap_blocks w a)"
  by (auto simp: ctx_get_def alloc_list_def split: option.splits stored.splits prod.splits
      dest!: materialize_frame)

lemma create_segment_keeps_blocks:
  assumes "a < next_addr w"
  shows "heap_blocks (fst (create_segment sem self x w ev)) a = heap_blocks w a"
proof (cases "ctx_get w ''blocks''")
  case None
  with assms show ?thesis
    by (simp add: create_segment_def alloc_list_def new_Block_def alloc_block_def
        list_append_def ctx_set_def Let_def)
next
  case (Some r)
  obtain w1 L where r: "r = (w1, L)" by (cases r)
  from ctx_get_blocks [of w "''blocks''" w1 L] Some r assms
  have "a < next_addr w1" "heap_blocks w1 a = heap_blocks w a" by auto
  with Some r show ?thesis
    by (simp add: create_segment_def new_Block_def alloc_block_def list_append_def ctx_set_def Let_def)
qed

lemma prompt_human_block:
  fixes x :: story_externals
  assumes "heap_blocks w block = Some b"
  shows "heap_blocks (fst (prompt_human sem x w (Ev (NewBlockEvent block)))) block =
           Some (b\<lparr>choice := (if ctx_store w ''blocks'' = None then choice b
                               else Some (read_input x (inputs_read w) (human_prompt b)))\<rparr>)"
proof (cases "ctx_get (w\<lparr>inputs_read := Suc (inputs_read w)\<rparr>) ''blocks''")
  case None
  then have "ctx_store w ''blocks'' = None"
    by (auto simp: ctx_get_def split: option.splits stored.splits prod.splits)
  with None assms show ?thesis by (simp add: prompt_human_def Let_def)
next
  case (Some r)
  then have "ctx_store w ''blocks'' \<noteq> None" by (auto simp: ctx_get_def split: option.splits)
  with Some assms show ?thesis
    by (cases r) (auto simp: prompt_human_def Let_def ctx_set_def)
qed

lemmas story_eval =
  first_round_def first_choice_def create_segment_def prompt_human_def ctx_get_def ctx_set_def
  alloc_list_def alloc_block_def new_Block_def list_append_def list_at_def deref_def
  blocks_read_def empty_story_world_def story_teller_def adventure_def first_block_def
  human_prompt_def Let_def

lemma materialize_ctx_store:
  "materialize w bs = (w', as) \<Longrightarrow> materialize (w\<lparr>ctx_store := c\<rparr>) bs = (w'\<lparr>ctx_store := c\<rparr>, as)"
proof (induction bs arbitrary: w w' as)
  case Nil
  then show ?case by simp
next
  case (Cons b bs)
  let ?w1 = "w\<lparr>heap_blocks := (heap_blocks w)(next_addr w \<mapsto> b), next_addr := Suc (next_addr w)\<rparr>"
  obtain w2 as2 where m: "materialize ?w1 bs = (w2, as2)" by (cases "materialize ?w1 bs")
  have e: "alloc_block (w\<lparr>ctx_store := c\<rparr>) b = (?w1\<lparr>ctx_store := c\<rparr>, next_addr w)"
    by (simp add: alloc_block_def)
  have a: "alloc_block w b = (?w1, next_addr w)" by (simp add: alloc_block_def)
  from Cons.IH [OF m] have "materialize (?w1\<lparr>ctx_store := c\<rparr>) bs = (w2\<lparr>ctx_store := c\<rparr>, as2)" .
  with Cons.prems m show ?case by (simp only: materialize.simps e a prod.case) simp
qed

lemma create_segment_ignores_block_key:
  "create_segment sem self x (w\<lparr>ctx_store := (ctx_store w)(''block'' := v)\<rparr>) ev =
     (case create_segment sem self x w ev of
        (w', out) \<Rightarrow> (w'\<lparr>ctx_store := (ctx_store w')(''block'' := v)\<rparr>, out))"
proof -
  let ?w = "w\<lparr>ctx_store := (ctx_store w)(''block'' := v)\<rparr>"
  have g: "(case ctx_get ?w ''blocks'' of None \<Rightarrow> alloc_list ?w [] | Some r \<Rightarrow> r) =
           (case (case ctx_get w ''blocks'' of None \<Rightarrow> alloc_list w [] | Some r \<Rightarrow> r) of
              (w0, L) \<Rightarrow> (w0\<lparr>ctx_store := (ctx_store w0)(''block'' := v)\<rparr>, L))"
  proof (cases "ctx_store w ''blocks''")
    case None
    then show ?thesis by (simp add: ctx_get_def alloc_list_def)
  next
    case (Some s)
    show ?thesis
    proof (cases s)
      case (Reference a)
      with Some show ?thesis by (simp add: ctx_get_def)
    next
      case (Snapshot bs)
      obtain w1 as where m: "materialize w bs = (w1, as)" by (cases "materialize w bs")
      from materialize_frame [OF m] have c: "ctx_store w1 = ctx_store w" by simp
      from materialize_ctx_store [OF m, of "(ctx_store w)(''block'' := v)"] Some Snapshot m c
      show ?thesis by (simp add: ctx_get_def alloc_list_def)
    qed
  qed
  obtain w0 L where r: "(case ctx_get w ''blocks'' of None \<Rightarrow> alloc_list w [] | Some r \<Rightarrow> r) = (w0, L)"
    by (cases "case ctx_get w ''blocks'' of None \<Rightarrow> alloc_list w [] | Some r \<Rightarrow> r")
  show ?thesis
    unfolding create_segment_def g r
    by (cases sem)
      (simp_all add: new_Block_def alloc_block_def list_append_def list_at_def deref_def ctx_set_def
        Let_def fun_upd_twist)
qed


lemma materialize_counters:
  "materialize w bs = (w', as) \<Longrightarrow>
     predictions w' = predictions w \<and> blocks_built w' = blocks_built w \<and> length as = length bs"
proof (induction bs arbitrary: w w' as)
  case Nil
  then show ?case by simp
next
  case (Cons b bs)
  obtain w1 a where a: "alloc_block w b = (w1, a)" by (cases "alloc_block w b")
  obtain w2 as2 where m: "materialize w1 bs = (w2, as2)" by (cases "materialize w1 bs")
  from a have "predictions w1 = predictions w" "blocks_built w1 = blocks_built w"
    by (auto simp: alloc_block_def)
  with Cons.IH [OF m] Cons.prems a m show ?case by auto
qed

lemma map_filter_upd_other:
  "a \<notin> set xs \<Longrightarrow> List.map_filter (f(a \<mapsto> v)) xs = List.map_filter f xs"
  by (induction xs) (auto simp: List.map_filter_simps split: option.splits)

lemma create_segment_by_value:
  fixes x :: story_externals and self :: ChooseYourOwnAdventureWorkflow and w :: story_world
    and bs :: "Block list"
  assumes "ctx_store w ''blocks'' = Some (Snapshot bs)"
  defines "nb \<equiv> \<lparr>block_id = uuid4 x (blocks_built w),
                  segment = structured_predict x (predictions w)
                    (if int (length bs) < max_steps self then SEGMENT_GENERATION_TEMPLATE
                     else FINAL_SEGMENT_GENERATION_TEMPLATE)
                    (join ''\<newline>'' (map str_Block bs)),
                  choice = None\<rparr>"
  shows "\<exists>w' out. create_segment ByValue self x w ev = (w', Inr out)
           \<and> (if int (length bs) < max_steps self
              then ctx_store w' ''blocks'' = Some (Snapshot (bs @ [nb]))
                   \<and> payload w' out = Ev (NewBlockPayload (Some nb))
              else ctx_store w' ''blocks'' = Some (Snapshot bs)
                   \<and> payload w' out = StopEvent (bs @ [nb]))"
proof -
  obtain w1 as where m: "materialize w bs = (w1, as)" by (cases "materialize w bs")
  from materialize_deref [OF m] have d: "List.map_filter (heap_blocks w1) as = bs"
    and lt: "\<forall>a \<in> set as. a < next_addr w1" by simp_all
  from materialize_counters [OF m] have c: "predictions w1 = predictions w" "blocks_built w1 = blocks_built w"
    "length as = length bs" by simp_all
  from materialize_frame [OF m] have f: "ctx_store w1 = ctx_store w" by simp
  from lt have n1: "next_addr w1 \<notin> set as" "Suc (next_addr w1) \<notin> set as" by auto
  from assms(1) m have g: "ctx_get w ''blocks'' = Some (alloc_list w1 as)" by (simp add: ctx_get_def)
  show ?thesis
    unfolding create_segment_def g nb_def
    using d c f n1 assms(1)
    by (simp add: alloc_list_def new_Block_def alloc_block_def list_append_def list_at_def
        deref_def ctx_set_def Let_def map_filter_snoc map_filter_upd_other)
qed

lemma create_segment_by_reference:
  fixes x :: story_externals and self :: ChooseYourOwnAdventureWorkflow and w :: story_world
    and l :: "addr list" and L :: addr
  assumes "ctx_store w ''blocks'' = Some (Reference L)" and "heap_lists w L = Some l"
    and "\<forall>a \<in> set l. a < next_addr w"
  defines "nb \<equiv> \<lparr>block_id = uuid4 x (blocks_built w),
                  segment = structured_predict x (predictions w)
                    (if int (length l) < max_steps self then SEGMENT_GENERATION_TEMPLATE
                     else FINAL_SEGMENT_GENERATION_TEMPLATE)
                    (join ''\<newline>'' (map str_Block (deref w L))),
                  choice = None\<rparr>"
  shows "\<exists>w' out. create_segment ByReference self x w ev = (w', Inr out)
           \<and> deref w' L = deref w L @ [nb]
           \<and> (if int (length l) < max_steps self
              then ctx_store w' ''blocks'' = Some (Reference L)
                   \<and> payload w' out = Ev (NewBlockPayload (Some nb))
              else ctx_store w' ''blocks'' = Some (Reference L)
                   \<and> payload w' out = StopEvent (deref w L @ [nb]))"
proof -
  from assms(3) have n: "next_addr w \<notin> set l" by auto
  from assms(1) have g: "ctx_get w ''blocks'' = Some (w, L)" by (simp add: ctx_get_def)
  show ?thesis
    unfolding create_segment_def g nb_def
    using assms(1,2) n
    by (simp add: new_Block_def alloc_block_def list_append_def list_at_def
        deref_def ctx_set_def Let_def map_filter_snoc map_filter_upd_other)
qed

lemma ctx_get_counters:
  "ctx_get w key = Some (w', a) \<Longrightarrow> predictions w' = predictions w \<and> blocks_built w' = blocks_built w"
  by (auto simp: ctx_get_def alloc_list_def split: option.splits stored.splits prod.splits
      dest: materialize_counters)

lemma prompt_human_counters:
  "predictions (fst (prompt_human sem x w ev)) = predictions w
   \<and> blocks_built (fst (prompt_human sem x w ev)) = blocks_built w"
  by (auto simp: prompt_human_def Let_def ctx_set_def
      split: event.splits story_event.splits option.splits prod.splits dest: ctx_get_counters)

text \<open>
  Claim C8. \<open>prompt_human\<close> never sets the key "blocks": the only \<open>set\<close> it makes is under
  the key "block"; and \<open>create_segment\<close> reads "blocks" and not "block": what is stored
  under "block" changes nothing of what it does. With a store that keeps values, the next
  \<open>create_segment\<close> gets the blocks as they were stored before \<open>prompt_human\<close>: the
  running story it gives to the language model, and the blocks it stores, have the last
  block without the choice. With a store that keeps references, the entry under "blocks"
  and the list it refers to are the same as before, and the next \<open>create_segment\<close> tells
  the story with the choice only because the \<open>Block\<close> held by that list was assigned in
  place.
\<close>

theorem prompt_human_writes_block_not_blocks:
  fixes x :: story_externals and self :: ChooseYourOwnAdventureWorkflow
  shows
  "ctx_store (fst (prompt_human sem x w ev)) ''blocks'' = ctx_store w ''blocks''
   \<and> (\<forall>w' ev'. prompt_human sem x w ev = (w', Inr ev') \<longrightarrow> ctx_store w' ''block'' \<noteq> None)
   \<and> (\<forall>v. create_segment sem self x (w\<lparr>ctx_store := (ctx_store w)(''block'' := v)\<rparr>) ev2 =
          (case create_segment sem self x w ev2 of
             (w', out) \<Rightarrow> (w'\<lparr>ctx_store := (ctx_store w')(''block'' := v)\<rparr>, out)))
   \<and> (\<forall>bs. ctx_store w ''blocks'' = Some (Snapshot bs)
         \<longrightarrow> blocks_read (fst (prompt_human sem x w ev)) = Some bs \<and> blocks_read w = Some bs
           \<and> (\<exists>w2 out.
                 create_segment ByValue self x (fst (prompt_human sem x w ev)) ev2 = (w2, Inr out)
                 \<and> (if int (length bs) < max_steps self
                    then ctx_store w2 ''blocks'' =
                           Some (Snapshot (bs @
                             [\<lparr>block_id = uuid4 x (blocks_built w),
                               segment = structured_predict x (predictions w) SEGMENT_GENERATION_TEMPLATE
                                           (join ''\<newline>'' (map str_Block bs)),
                               choice = None\<rparr>]))
                    else payload w2 out =
                           StopEvent (bs @
                             [\<lparr>block_id = uuid4 x (blocks_built w),
                               segment = structured_predict x (predictions w) FINAL_SEGMENT_GENERATION_TEMPLATE
                                           (join ''\<newline>'' (map str_Block bs)),
                               choice = None\<rparr>]))))
   \<and> (\<forall>L l block b.
         ctx_store w ''blocks'' = Some (Reference L) \<and> heap_lists w L = Some l \<and> l \<noteq> []
         \<and> last l = block \<and> heap_blocks w block = Some b \<and> ev = Ev (NewBlockEvent block)
         \<longrightarrow> heap_lists (fst (prompt_human sem x w ev)) L = Some l
           \<and> heap_blocks (fst (prompt_human sem x w ev)) =
               (heap_blocks w)(block \<mapsto> b\<lparr>choice := Some (read_input x (inputs_read w) (human_prompt b))\<rparr>)
           \<and> (\<exists>bs. blocks_read (fst (prompt_human sem x w ev)) =
                 Some (bs @ [b\<lparr>choice := Some (read_input x (inputs_read w) (human_prompt b))\<rparr>])
               \<and> ((\<forall>a \<in> set l. a < next_addr w) \<longrightarrow>
                   (\<exists>w2 out.
                      create_segment ByReference self x (fst (prompt_human sem x w ev)) ev2 = (w2, Inr out)
                      \<and> ctx_store w2 ''blocks'' = Some (Reference L)
                      \<and> deref w2 L =
                          bs @ [b\<lparr>choice := Some (read_input x (inputs_read w) (human_prompt b))\<rparr>,
                                \<lparr>block_id = uuid4 x (blocks_built w),
                                 segment = structured_predict x (predictions w)
                                   (if int (length l) < max_steps self then SEGMENT_GENERATION_TEMPLATE
                                    else FINAL_SEGMENT_GENERATION_TEMPLATE)
                                   (join ''\<newline>'' (map str_Block
                                      (bs @ [b\<lparr>choice := Some (read_input x (inputs_read w) (human_prompt b))\<rparr>]))),
                                 choice = None\<rparr>]))))"
proof (intro conjI allI impI)
  show "ctx_store (fst (prompt_human sem x w ev)) ''blocks'' = ctx_store w ''blocks''"
    by (rule prompt_human_keeps_blocks_key)
next
  fix w' ev' assume "prompt_human sem x w ev = (w', Inr ev')"
  then show "ctx_store w' ''block'' \<noteq> None" by (rule prompt_human_sets_block_key)
next
  fix v
  show "create_segment sem self x (w\<lparr>ctx_store := (ctx_store w)(''block'' := v)\<rparr>) ev2 =
          (case create_segment sem self x w ev2 of
             (w', out) \<Rightarrow> (w'\<lparr>ctx_store := (ctx_store w')(''block'' := v)\<rparr>, out))"
    by (rule create_segment_ignores_block_key)
next
  fix bs assume s: "ctx_store w ''blocks'' = Some (Snapshot bs)"
  then show "blocks_read w = Some bs" by (rule blocks_read_snapshot)
  let ?w1 = "fst (prompt_human sem x w ev)"
  from s have s1: "ctx_store ?w1 ''blocks'' = Some (Snapshot bs)"
    by (simp add: prompt_human_keeps_blocks_key)
  then show "blocks_read ?w1 = Some bs" by (rule blocks_read_snapshot)
  from create_segment_by_value [OF s1, of self x ev2] prompt_human_counters [of sem x w ev]
  show "\<exists>w2 out.
          create_segment ByValue self x ?w1 ev2 = (w2, Inr out)
          \<and> (if int (length bs) < max_steps self
             then ctx_store w2 ''blocks'' =
                    Some (Snapshot (bs @
                      [\<lparr>block_id = uuid4 x (blocks_built w),
                        segment = structured_predict x (predictions w) SEGMENT_GENERATION_TEMPLATE
                                    (join ''\<newline>'' (map str_Block bs)),
                        choice = None\<rparr>]))
             else payload w2 out =
                    StopEvent (bs @
                      [\<lparr>block_id = uuid4 x (blocks_built w),
                        segment = structured_predict x (predictions w) FINAL_SEGMENT_GENERATION_TEMPLATE
                                    (join ''\<newline>'' (map str_Block bs)),
                        choice = None\<rparr>]))"
    by (auto split: if_splits)
next
  fix L l block b
  assume h: "ctx_store w ''blocks'' = Some (Reference L) \<and> heap_lists w L = Some l \<and> l \<noteq> []
         \<and> last l = block \<and> heap_blocks w block = Some b \<and> ev = Ev (NewBlockEvent block)"
  let ?b' = "b\<lparr>choice := Some (read_input x (inputs_read w) (human_prompt b))\<rparr>"
  let ?w' = "fst (prompt_human sem x w ev)"
  from h have r: "prompt_human sem x w ev =
           (ctx_set sem (w\<lparr>inputs_read := Suc (inputs_read w),
                           heap_blocks := (heap_blocks w)(block \<mapsto> ?b'),
                           heap_lists := (heap_lists w)(L \<mapsto> l)\<rparr>) ''block'' L,
            Inr (Ev (HumanChoiceEvent (block_id b))))"
    using prompt_human_by_reference [of w L l block b sem x] by simp
  then show hl: "heap_lists ?w' L = Some l" by (simp add: ctx_set_def)
  from r show hb: "heap_blocks ?w' = (heap_blocks w)(block \<mapsto> ?b')" by (simp add: ctx_set_def)
  from r have na: "next_addr ?w' = next_addr w" by (simp add: ctx_set_def)
  from h have cs: "ctx_store ?w' ''blocks'' = Some (Reference L)"
    by (simp add: prompt_human_keeps_blocks_key)
  then have br: "blocks_read ?w' = Some (deref ?w' L)" by (rule blocks_read_reference)
  from h have "l = butlast l @ [block]" by (metis append_butlast_last_id)
  then have d: "deref ?w' L = List.map_filter (heap_blocks ?w') (butlast l) @ [?b']"
    using hl hb by (simp add: deref_def list_at_def) (metis fun_upd_same map_filter_snoc option.simps(5))
  let ?bs = "List.map_filter (heap_blocks ?w') (butlast l)"
  have "blocks_read ?w' = Some (?bs @ [?b'])
        \<and> ((\<forall>a \<in> set l. a < next_addr w) \<longrightarrow>
            (\<exists>w2 out.
               create_segment ByReference self x ?w' ev2 = (w2, Inr out)
               \<and> ctx_store w2 ''blocks'' = Some (Reference L)
               \<and> deref w2 L =
                   ?bs @ [?b',
                         \<lparr>block_id = uuid4 x (blocks_built w),
                          segment = structured_predict x (predictions w)
                            (if int (length l) < max_steps self then SEGMENT_GENERATION_TEMPLATE
                             else FINAL_SEGMENT_GENERATION_TEMPLATE)
                            (join ''\<newline>'' (map str_Block (?bs @ [?b']))),
                          choice = None\<rparr>]))"
  proof (intro conjI impI)
    from br d show "blocks_read ?w' = Some (?bs @ [?b'])" by simp
  next
    assume "\<forall>a \<in> set l. a < next_addr w"
    with na have lt: "\<forall>a \<in> set l. a < next_addr ?w'" by simp
    from create_segment_by_reference [OF cs hl lt, of self x ev2] d
      prompt_human_counters [of sem x w ev]
    show "\<exists>w2 out.
               create_segment ByReference self x ?w' ev2 = (w2, Inr out)
               \<and> ctx_store w2 ''blocks'' = Some (Reference L)
               \<and> deref w2 L =
                   ?bs @ [?b',
                         \<lparr>block_id = uuid4 x (blocks_built w),
                          segment = structured_predict x (predictions w)
                            (if int (length l) < max_steps self then SEGMENT_GENERATION_TEMPLATE
                             else FINAL_SEGMENT_GENERATION_TEMPLATE)
                            (join ''\<newline>'' (map str_Block (?bs @ [?b']))),
                          choice = None\<rparr>]"
      by (auto split: if_splits)
  qed
  then show "\<exists>bs. blocks_read ?w' = Some (bs @ [?b'])
               \<and> ((\<forall>a \<in> set l. a < next_addr w) \<longrightarrow>
                   (\<exists>w2 out.
                      create_segment ByReference self x ?w' ev2 = (w2, Inr out)
                      \<and> ctx_store w2 ''blocks'' = Some (Reference L)
                      \<and> deref w2 L =
                          bs @ [?b',
                                \<lparr>block_id = uuid4 x (blocks_built w),
                                 segment = structured_predict x (predictions w)
                                   (if int (length l) < max_steps self then SEGMENT_GENERATION_TEMPLATE
                                    else FINAL_SEGMENT_GENERATION_TEMPLATE)
                                   (join ''\<newline>'' (map str_Block (bs @ [?b']))),
                                 choice = None\<rparr>]))"
    by blast
qed

text \<open>
  The first two rounds of the story in both stores, the second with the teller that
  retells: with values the second segment retells the first block without a choice, with
  references it retells it with the choice "Ask a guide".
\<close>

theorem prompt_human_writes_block_not_blocks_witness:
  "ctx_store (first_round ByValue) ''blocks'' = Some (Snapshot [first_block])
   \<and> blocks_read (first_choice ByValue) = Some [first_block]
   \<and> ctx_store (first_choice ByValue) ''block'' = Some (Snapshot [first_block\<lparr>choice := Some ''Ask a guide''\<rparr>])
   \<and> ctx_store (second_round ByValue) ''blocks'' =
       Some (Snapshot [first_block,
               \<lparr>block_id = ''id-1'',
                segment = \<lparr>plot = str_Block first_block, actions = [''Go on'']\<rparr>,
                choice = None\<rparr>])
   \<and> ctx_store (first_round ByReference) ''blocks'' = Some (Reference 0)
   \<and> heap_lists (first_round ByReference) 0 = Some [1]
   \<and> heap_blocks (first_round ByReference) 1 = Some first_block
   \<and> ctx_store (first_choice ByReference) ''blocks'' = Some (Reference 0)
   \<and> heap_lists (first_choice ByReference) 0 = Some [1]
   \<and> blocks_read (first_choice ByReference) = Some [first_block\<lparr>choice := Some ''Ask a guide''\<rparr>]
   \<and> deref (second_round ByReference) 0 =
       [first_block\<lparr>choice := Some ''Ask a guide''\<rparr>,
        \<lparr>block_id = ''id-1'',
         segment = \<lparr>plot = str_Block (first_block\<lparr>choice := Some ''Ask a guide''\<rparr>), actions = [''Go on'']\<rparr>,
         choice = None\<rparr>]
   \<and> str_Block first_block \<noteq> str_Block (first_block\<lparr>choice := Some ''Ask a guide''\<rparr>)"
proof -
  have ri: "read_input retelling = read_input story_teller" by (simp add: retelling_def)
  have p: "prompt_human sem retelling w ev = prompt_human sem story_teller w ev" for sem w ev
    unfolding prompt_human_def ri by (rule refl)
  have v: "ctx_store (first_round ByValue) ''blocks'' = Some (Snapshot [first_block])"
    by (simp add: story_eval)
  have vb: "ctx_store (first_choice ByValue) ''block'' = Some (Snapshot [first_block\<lparr>choice := Some ''Ask a guide''\<rparr>])"
    by (simp add: story_eval)
  have r: "ctx_store (first_round ByReference) ''blocks'' = Some (Reference 0)"
    "heap_lists (first_round ByReference) 0 = Some [1]"
    "heap_blocks (first_round ByReference) 1 = Some first_block"
    "next_addr (first_round ByReference) = 2"
    by (simp_all add: story_eval)
  have c: "blocks_built (first_round ByValue) = 1" "predictions (first_round ByValue) = 1"
    "blocks_built (first_round ByReference) = 1" "predictions (first_round ByReference) = 1"
    "inputs_read (first_round ByReference) = 0"
    by (simp_all add: story_eval)
  have x: "uuid4 retelling 1 = ''id-1''" "max_steps adventure = 3"
    "read_input retelling 0 (human_prompt first_block) = ''Ask a guide''"
    "structured_predict retelling 1 t story = \<lparr>plot = story, actions = [''Go on'']\<rparr>" for t story
    by (simp_all add: retelling_def story_teller_def adventure_def)
  have ne: "str_Block first_block \<noteq> str_Block (first_block\<lparr>choice := Some ''Ask a guide''\<rparr>)"
    by (simp add: str_Block_def BLOCK_TEMPLATE_def first_block_def)
  note t1 = prompt_human_writes_block_not_blocks
         [of ByValue retelling "first_round ByValue" "Ev (NewBlockEvent 1)" adventure
             "Ev (HumanChoiceEvent ''id-0'')"]
  note t2 = prompt_human_writes_block_not_blocks
         [of ByReference retelling "first_round ByReference" "Ev (NewBlockEvent 1)" adventure
             "Ev (HumanChoiceEvent ''id-0'')"]
  from t1 v c x have one: "blocks_read (first_choice ByValue) = Some [first_block]"
    "ctx_store (second_round ByValue) ''blocks'' =
       Some (Snapshot [first_block,
               \<lparr>block_id = ''id-1'',
                segment = \<lparr>plot = str_Block first_block, actions = [''Go on'']\<rparr>,
                choice = None\<rparr>])"
    by (auto simp: first_choice_def second_round_def p)
  from t2 r c x have two: "ctx_store (first_choice ByReference) ''blocks'' = Some (Reference 0)"
    "heap_lists (first_choice ByReference) 0 = Some [1]"
    by (auto simp: first_choice_def p)
  have rc: "blocks_read (first_choice ByReference) = Some [first_block\<lparr>choice := Some ''Ask a guide''\<rparr>]"
    by (simp add: story_eval)
  from t2 r c x rc have three: "deref (second_round ByReference) 0 =
       [first_block\<lparr>choice := Some ''Ask a guide''\<rparr>,
        \<lparr>block_id = ''id-1'',
         segment = \<lparr>plot = str_Block (first_block\<lparr>choice := Some ''Ask a guide''\<rparr>), actions = [''Go on'']\<rparr>,
         choice = None\<rparr>]"
    by (auto simp: first_choice_def second_round_def p)
  from v vb r one two rc three ne show ?thesis by simp
qed

text \<open>
  Claim C5, as amended. A step leaves the kind of the event it consumes and the
  references and strings the event holds as they were emitted, but an object the payload
  refers to can change: \<open>prompt_human\<close> assigns \<open>choice\<close> on the \<open>Block\<close> of the
  \<open>NewBlockEvent\<close> it consumes as soon as the key "blocks" is in the store, and leaves
  the block's identifier and segment as emitted; \<open>create_segment\<close> changes no block that
  exists, so the payload of the event it consumes is as emitted. The events of the
  reflection workflow hold strings only.
\<close>

theorem steps_mutate_only_block_choice:
  fixes x :: story_externals
  shows
  "((\<exists>kwargs. ev = StartEvent kwargs) \<or> (\<exists>i. ev = Ev (HumanChoiceEvent i))
      \<or> (\<exists>a. ev = Ev (NewBlockEvent a) \<and> a < next_addr w)
      \<longrightarrow> payload (fst (create_segment sem self x w ev)) ev = payload w ev)
   \<and> (\<forall>block b. heap_blocks w block = Some b \<longrightarrow>
         payload w (Ev (NewBlockEvent block)) = Ev (NewBlockPayload (Some b))
         \<and> payload (fst (prompt_human sem x w (Ev (NewBlockEvent block)))) (Ev (NewBlockEvent block)) =
             Ev (NewBlockPayload (Some (b\<lparr>choice :=
               (if ctx_store w ''blocks'' = None then choice b
                else Some (read_input x (inputs_read w) (human_prompt b)))\<rparr>))))"
proof (intro conjI allI impI)
  assume "(\<exists>kwargs. ev = StartEvent kwargs) \<or> (\<exists>i. ev = Ev (HumanChoiceEvent i))
      \<or> (\<exists>a. ev = Ev (NewBlockEvent a) \<and> a < next_addr w)"
  then show "payload (fst (create_segment sem self x w ev)) ev = payload w ev"
    by (auto simp: create_segment_keeps_blocks)
next
  fix block b assume b: "heap_blocks w block = Some b"
  then show "payload w (Ev (NewBlockEvent block)) = Ev (NewBlockPayload (Some b))" by simp
  from prompt_human_block [OF b, of sem x]
  show "payload (fst (prompt_human sem x w (Ev (NewBlockEvent block)))) (Ev (NewBlockEvent block)) =
          Ev (NewBlockPayload (Some (b\<lparr>choice :=
            (if ctx_store w ''blocks'' = None then choice b
             else Some (read_input x (inputs_read w) (human_prompt b)))\<rparr>)))"
    by simp
qed

text \<open>
  The first round of the story: after \<open>prompt_human\<close> the block of the event has the
  choice, and the next \<open>create_segment\<close> leaves it so.
\<close>

theorem steps_mutate_only_block_choice_witness:
  "heap_blocks (first_round ByValue) 1 = Some first_block
   \<and> ctx_store (first_round ByValue) ''blocks'' \<noteq> None
   \<and> read_input story_teller (inputs_read (first_round ByValue)) (human_prompt first_block) = ''Ask a guide''
   \<and> payload (first_choice ByValue) (Ev (NewBlockEvent 1)) =
       Ev (NewBlockPayload (Some (first_block\<lparr>choice := Some ''Ask a guide''\<rparr>)))
   \<and> next_addr (first_choice ByValue) = 4
   \<and> payload (fst (create_segment ByValue adventure story_teller (first_choice ByValue)
                      (Ev (HumanChoiceEvent ''id-0'')))) (Ev (NewBlockEvent 1)) =
       Ev (NewBlockPayload (Some (first_block\<lparr>choice := Some ''Ask a guide''\<rparr>)))"
proof -
  have h: "heap_blocks (first_round ByValue) 1 = Some first_block"
    "ctx_store (first_round ByValue) ''blocks'' \<noteq> None"
    "read_input story_teller (inputs_read (first_round ByValue)) (human_prompt first_block) = ''Ask a guide''"
    by (simp_all add: story_eval)
  have n: "next_addr (first_choice ByValue) = 4" by (simp add: story_eval)
  from steps_mutate_only_block_choice
         [of "Ev (NewBlockEvent 1)" "first_round ByValue" ByValue adventure story_teller]
    h
  have p: "payload (first_choice ByValue) (Ev (NewBlockEvent 1)) =
       Ev (NewBlockPayload (Some (first_block\<lparr>choice := Some ''Ask a guide''\<rparr>)))"
    by (simp add: first_choice_def)
  from steps_mutate_only_block_choice
         [of "Ev (NewBlockEvent 1)" "first_choice ByValue" ByValue adventure story_teller] n p
  have "payload (fst (create_segment ByValue adventure story_teller (first_choice ByValue)
                      (Ev (NewBlockEvent 1)))) (Ev (NewBlockEvent 1)) =
       Ev (NewBlockPayload (Some (first_block\<lparr>choice := Some ''Ask a guide''\<rparr>)))"
    by simp
  moreover have "create_segment ByValue adventure story_teller (first_choice ByValue) (Ev (HumanChoiceEvent ''id-0''))
     = create_segment ByValue adventure story_teller (first_choice ByValue) (Ev (NewBlockEvent 1))"
    by (simp add: create_segment_def)
  ultimately show ?thesis using h n p by simp
qed

text \<open>
  Claim C5 as stated fails: \<open>create_segment\<close> emits \<open>NewBlockEvent\<close> for a block without
  a choice, and after \<open>prompt_human\<close> has consumed the event, the event's payload field
  \<open>block\<close> has the choice "Ask a guide".
\<close>

theorem event_payload_mutated_counterexample:
  "snd (create_segment ByReference adventure story_teller empty_story_world (StartEvent [])) =
     Inr (Ev (NewBlockEvent 1))
   \<and> payload (first_round ByReference) (Ev (NewBlockEvent 1)) = Ev (NewBlockPayload (Some first_block))
   \<and> snd (prompt_human ByReference story_teller (first_round ByReference) (Ev (NewBlockEvent 1))) =
       Inr (Ev (HumanChoiceEvent ''id-0''))
   \<and> payload (first_choice ByReference) (Ev (NewBlockEvent 1)) =
       Ev (NewBlockPayload (Some (first_block\<lparr>choice := Some ''Ask a guide''\<rparr>)))
   \<and> payload (first_choice ByReference) (Ev (NewBlockEvent 1)) \<noteq>
       payload (first_round ByReference) (Ev (NewBlockEvent 1))"
  by (simp add: story_eval)

section \<open>Properties of the scoped edit and of the tools\<close>

lemma map_of_dict_set: "map_of (dict_set d k v) = (map_of d)(k \<mapsto> v)"
  by (induction d k v rule: dict_set.induct) auto

lemma dict_set_same: "map_of d k = Some v \<Longrightarrow> dict_set d k v = d"
  by (induction d k v rule: dict_set.induct) (auto split: if_splits)

lemma add_entry_raises: "add_entry k v s = (s', Inl e) \<Longrightarrow> s' = s"
  by (auto simp: add_entry_def split: pyval.splits)

lemma record_notes_scope_raises: "record_notes_scope notes title s = (s', Inl e) \<Longrightarrow> s' = s"
  by (auto simp: record_notes_scope_def Let_def map_of_dict_set
      split: pyval.splits option.splits if_splits)

lemma scoped_edit_commits:
  assumes "\<And>s s' e. scope s = (s', Inl e) \<Longrightarrow> s' = s"
  shows "fst (scoped_edit policy key scope st) =
           (case map_of st key of None \<Rightarrow> st | Some snapshot \<Rightarrow> dict_set st key (fst (scope snapshot)))"
proof (cases "map_of st key")
  case None
  then show ?thesis by (simp add: scoped_edit_def)
next
  case (Some snapshot)
  obtain s' res where sc: "scope snapshot = (s', res)" by (cases "scope snapshot")
  show ?thesis
  proof (cases res)
    case (Inr v)
    with Some sc show ?thesis by (simp add: scoped_edit_def)
  next
    case (Inl e)
    with assms sc have "s' = snapshot" by blast
    with Some sc Inl show ?thesis
      by (cases policy) (simp_all add: scoped_edit_def dict_set_same)
  qed
qed

lemma fst_returning: "fst (returning s res) = fst res"
  by (cases res) (auto simp: returning_def split: sum.splits)

text \<open>
  Claim C6, as amended. For every key and every dictionary stored under it, a scoped edit
  that reads the dictionary and adds an entry leaves, on normal exit, the updated
  dictionary under that key in the store handed to the next invocation; so do
  \<open>write_report\<close> and \<open>record_notes\<close> for the key "state", and every scope that exits
  normally has its snapshot committed. When the scope raises, the store commits or
  discards: a committing store holds under the key the snapshot as the scope left it, a
  discarding store holds what it held on entry, so that an entry added before the
  exception is lost. The other keys are as before on every exit path. The scopes of
  \<open>record_notes\<close> and \<open>write_report\<close> raise only before they change the snapshot, so for
  them the two stores agree.
\<close>

theorem scoped_edit_round_trip:
  fixes scope :: "pyval \<Rightarrow> pyval \<times> (exn + 'a)"
  shows
  "(\<forall>d. map_of st key = Some (PDict d) \<longrightarrow>
      scoped_edit policy key (add_entry k v) st = (dict_set st key (PDict (dict_set d k v)), Inr ())
      \<and> map_of (fst (scoped_edit policy key (add_entry k v) st)) key = Some (PDict (dict_set d k v))
      \<and> map_of (dict_set d k v) k = Some v)
   \<and> (\<forall>snapshot snapshot' res.
        map_of st key = Some snapshot \<and> scope snapshot = (snapshot', Inr res) \<longrightarrow>
        scoped_edit policy key scope st = (dict_set st key snapshot', Inr res)
        \<and> map_of (fst (scoped_edit policy key scope st)) key = Some snapshot')
   \<and> (\<forall>snapshot snapshot' e.
        map_of st key = Some snapshot \<and> scope snapshot = (snapshot', Inl e) \<longrightarrow>
        scoped_edit Commit key scope st = (dict_set st key snapshot', Inl e)
        \<and> map_of (fst (scoped_edit Commit key scope st)) key = Some snapshot'
        \<and> scoped_edit Discard key scope st = (st, Inl e)
        \<and> map_of (fst (scoped_edit Discard key scope st)) key = Some snapshot)
   \<and> (\<forall>key'. key' \<noteq> key \<longrightarrow> map_of (fst (scoped_edit policy key scope st)) key' = map_of st key')
   \<and> (\<forall>d. map_of st key = Some (PDict d) \<longrightarrow>
        scoped_edit Commit key (add_entry_then_raise k v e) st =
          (dict_set st key (PDict (dict_set d k v)), Inl e)
        \<and> map_of (fst (scoped_edit Commit key (add_entry_then_raise k v e) st)) key =
            Some (PDict (dict_set d k v))
        \<and> scoped_edit Discard key (add_entry_then_raise k v e) st = (st, Inl e)
        \<and> map_of (fst (scoped_edit Discard key (add_entry_then_raise k v e) st)) key = Some (PDict d))
   \<and> fst (scoped_edit policy key (add_entry k v) st) =
       (case map_of st key of
          None \<Rightarrow> st
        | Some snapshot \<Rightarrow> dict_set st key (fst (add_entry k v snapshot)))
   \<and> (\<forall>d. map_of st ''state'' = Some (PDict d) \<longrightarrow>
        write_report policy st report_content =
          (dict_set st ''state'' (PDict (dict_set d ''report_content'' (PStr report_content))),
           Inr ''Report written.''))
   \<and> (\<forall>d research_notes.
        map_of st ''state'' = Some (PDict d) \<and> map_of d ''research_notes'' = Some (PDict research_notes) \<longrightarrow>
        record_notes policy st notes notes_title =
          (dict_set st ''state'' (PDict (dict_set d ''research_notes''
              (PDict (dict_set research_notes notes_title (PStr notes))))),
           Inr ''Notes recorded.''))
   \<and> (\<forall>d. map_of st ''state'' = Some (PDict d) \<and> map_of d ''research_notes'' = None \<longrightarrow>
        record_notes policy st notes notes_title =
          (dict_set st ''state'' (PDict (dict_set (dict_set d ''research_notes'' (PDict []))
              ''research_notes'' (PDict [(notes_title, PStr notes)]))),
           Inr ''Notes recorded.''))
   \<and> fst (record_notes policy st notes notes_title) =
       (case map_of st ''state'' of
          None \<Rightarrow> st
        | Some snapshot \<Rightarrow> dict_set st ''state'' (fst (record_notes_scope notes notes_title snapshot)))
   \<and> fst (write_report policy st report_content) =
       (case map_of st ''state'' of
          None \<Rightarrow> st
        | Some snapshot \<Rightarrow> dict_set st ''state'' (fst (add_entry ''report_content'' (PStr report_content) snapshot)))"
proof (intro conjI allI impI)
  fix d assume d: "map_of st key = Some (PDict d)"
  then show e: "scoped_edit policy key (add_entry k v) st =
      (dict_set st key (PDict (dict_set d k v)), Inr ())"
    by (simp add: scoped_edit_def add_entry_def)
  show "map_of (fst (scoped_edit policy key (add_entry k v) st)) key = Some (PDict (dict_set d k v))"
    by (simp add: e map_of_dict_set)
  show "map_of (dict_set d k v) k = Some v" by (simp add: map_of_dict_set)
next
  fix snapshot snapshot' res
  assume "map_of st key = Some snapshot \<and> scope snapshot = (snapshot', Inr res)"
  then show "scoped_edit policy key scope st = (dict_set st key snapshot', Inr res)"
    and "map_of (fst (scoped_edit policy key scope st)) key = Some snapshot'"
    by (simp_all add: scoped_edit_def map_of_dict_set)
next
  fix snapshot snapshot' e
  assume "map_of st key = Some snapshot \<and> scope snapshot = (snapshot', Inl e)"
  then show "scoped_edit Commit key scope st = (dict_set st key snapshot', Inl e)"
    and "map_of (fst (scoped_edit Commit key scope st)) key = Some snapshot'"
    and "scoped_edit Discard key scope st = (st, Inl e)"
    and "map_of (fst (scoped_edit Discard key scope st)) key = Some snapshot"
    by (simp_all add: scoped_edit_def map_of_dict_set)
next
  fix key' :: string assume "key' \<noteq> key"
  then show "map_of (fst (scoped_edit policy key scope st)) key' = map_of st key'"
    by (cases policy)
      (auto simp: scoped_edit_def map_of_dict_set split: option.splits prod.splits sum.splits)
next
  fix d assume d: "map_of st key = Some (PDict d)"
  then show "scoped_edit Commit key (add_entry_then_raise k v e) st =
          (dict_set st key (PDict (dict_set d k v)), Inl e)"
    and "map_of (fst (scoped_edit Commit key (add_entry_then_raise k v e) st)) key =
            Some (PDict (dict_set d k v))"
    and "scoped_edit Discard key (add_entry_then_raise k v e) st = (st, Inl e)"
    and "map_of (fst (scoped_edit Discard key (add_entry_then_raise k v e) st)) key = Some (PDict d)"
    by (simp_all add: scoped_edit_def add_entry_then_raise_def add_entry_def map_of_dict_set)
next
  show "fst (scoped_edit policy key (add_entry k v) st) =
       (case map_of st key of
          None \<Rightarrow> st
        | Some snapshot \<Rightarrow> dict_set st key (fst (add_entry k v snapshot)))"
    by (rule scoped_edit_commits) (rule add_entry_raises)
next
  fix d assume "map_of st ''state'' = Some (PDict d)"
  then show "write_report policy st report_content =
          (dict_set st ''state'' (PDict (dict_set d ''report_content'' (PStr report_content))),
           Inr ''Report written.'')"
    by (simp add: write_report_def returning_def scoped_edit_def add_entry_def)
next
  fix d research_notes
  assume "map_of st ''state'' = Some (PDict d) \<and> map_of d ''research_notes'' = Some (PDict research_notes)"
  then show "record_notes policy st notes notes_title =
          (dict_set st ''state'' (PDict (dict_set d ''research_notes''
              (PDict (dict_set research_notes notes_title (PStr notes))))),
           Inr ''Notes recorded.'')"
    by (simp add: record_notes_def returning_def scoped_edit_def record_notes_scope_def)
next
  fix d
  assume "map_of st ''state'' = Some (PDict d) \<and> map_of d ''research_notes'' = None"
  then show "record_notes policy st notes notes_title =
          (dict_set st ''state'' (PDict (dict_set (dict_set d ''research_notes'' (PDict []))
              ''research_notes'' (PDict [(notes_title, PStr notes)]))),
           Inr ''Notes recorded.'')"
    by (simp add: record_notes_def returning_def scoped_edit_def record_notes_scope_def
        map_of_dict_set)
next
  show "fst (record_notes policy st notes notes_title) =
       (case map_of st ''state'' of
          None \<Rightarrow> st
        | Some snapshot \<Rightarrow> dict_set st ''state'' (fst (record_notes_scope notes notes_title snapshot)))"
    unfolding record_notes_def fst_returning
    by (rule scoped_edit_commits) (rule record_notes_scope_raises)
next
  show "fst (write_report policy st report_content) =
       (case map_of st ''state'' of
          None \<Rightarrow> st
        | Some snapshot \<Rightarrow> dict_set st ''state'' (fst (add_entry ''report_content'' (PStr report_content) snapshot)))"
    unfolding write_report_def fst_returning
    by (rule scoped_edit_commits) (rule add_entry_raises)
qed

text \<open>
  The notebook's initial state: notes recorded, a report written; a scope that raises
  because the value under its key is a string, with either policy; and a scope that adds
  the report and then raises, which a committing store keeps and a discarding store loses.
\<close>

theorem scoped_edit_round_trip_witness:
  "map_of initial_ctx ''state'' = Some (PDict (initial_state agent_workflow))
   \<and> map_of (initial_state agent_workflow) ''research_notes'' = Some (PDict [])
   \<and> record_notes Discard initial_ctx ''ARPANET, 1969'' ''History'' =
       ([(''state'', PDict [(''research_notes'', PDict [(''History'', PStr ''ARPANET, 1969'')]),
                            (''report_content'', PStr ''Not written yet.''),
                            (''review'', PStr ''Review required.'')])],
        Inr ''Notes recorded.'')
   \<and> write_report Commit initial_ctx ''# History'' =
       ([(''state'', PDict [(''research_notes'', PDict []),
                            (''report_content'', PStr ''# History''),
                            (''review'', PStr ''Review required.'')])],
        Inr ''Report written.'')
   \<and> map_of [(''plan'', PStr ''draft'')] ''plan'' = Some (PStr ''draft'')
   \<and> scoped_edit Discard ''plan'' (add_entry ''step'' (PStr ''one'')) [(''plan'', PStr ''draft'')] =
       ([(''plan'', PStr ''draft'')], Inl TypeError)
   \<and> scoped_edit Commit ''plan'' (add_entry ''step'' (PStr ''one'')) [(''plan'', PStr ''draft'')] =
       ([(''plan'', PStr ''draft'')], Inl TypeError)
   \<and> scoped_edit Commit ''state'' (add_entry_then_raise ''report_content'' (PStr ''# History'') ValueError)
         initial_ctx =
       ([(''state'', PDict [(''research_notes'', PDict []),
                            (''report_content'', PStr ''# History''),
                            (''review'', PStr ''Review required.'')])],
        Inl ValueError)
   \<and> scoped_edit Discard ''state'' (add_entry_then_raise ''report_content'' (PStr ''# History'') ValueError)
         initial_ctx =
       ([(''state'', PDict [(''research_notes'', PDict []),
                            (''report_content'', PStr ''Not written yet.''),
                            (''review'', PStr ''Review required.'')])],
        Inl ValueError)"
proof -
  have h: "map_of initial_ctx ''state'' = Some (PDict (initial_state agent_workflow))"
    "map_of (initial_state agent_workflow) ''research_notes'' = Some (PDict [])"
    by (simp_all add: initial_ctx_def agent_workflow_def)
  have e: "snd (scoped_edit Discard ''plan'' (add_entry ''step'' (PStr ''one'')) [(''plan'', PStr ''draft'')]) = Inl TypeError"
    "snd (scoped_edit Commit ''plan'' (add_entry ''step'' (PStr ''one'')) [(''plan'', PStr ''draft'')]) = Inl TypeError"
    by (simp_all add: scoped_edit_def add_entry_def)
  note t = scoped_edit_round_trip [where scope = "add_entry ''k'' (PStr ''v'')"]
  from t [of initial_ctx "''state''" Discard "''k''" "PStr ''v''" ValueError "''# History''" "''ARPANET, 1969''" "''History''"]
       t [of initial_ctx "''state''" Commit "''report_content''" "PStr ''# History''" ValueError "''# History''" "''ARPANET, 1969''" "''History''"]
       t [of "[(''plan'', PStr ''draft'')]" "''plan''" Discard "''step''" "PStr ''one''" ValueError "''r''" "''n''" "''t''"]
       t [of "[(''plan'', PStr ''draft'')]" "''plan''" Commit "''step''" "PStr ''one''" ValueError "''r''" "''n''" "''t''"]
       h e
  show ?thesis
    by (simp add: initial_ctx_def agent_workflow_def add_entry_def prod_eq_iff)
qed

text \<open>
  Claim C6 as stated fails for a store that discards: the scope has added the report to
  its snapshot when it raises, and the store holds the state as it was on entry, without
  the report.
\<close>

theorem scoped_edit_discards_counterexample:
  "map_of initial_ctx ''state'' = Some (PDict (initial_state agent_workflow))
   \<and> add_entry_then_raise ''report_content'' (PStr ''# History'') ValueError
         (PDict (initial_state agent_workflow)) =
       (PDict (dict_set (initial_state agent_workflow) ''report_content'' (PStr ''# History'')),
        Inl ValueError)
   \<and> scoped_edit Discard ''state'' (add_entry_then_raise ''report_content'' (PStr ''# History'') ValueError)
         initial_ctx = (initial_ctx, Inl ValueError)
   \<and> map_of (fst (scoped_edit Discard ''state''
                     (add_entry_then_raise ''report_content'' (PStr ''# History'') ValueError) initial_ctx))
         ''state'' \<noteq>
       Some (PDict (dict_set (initial_state agent_workflow) ''report_content'' (PStr ''# History'')))"
  by (simp add: initial_ctx_def agent_workflow_def scoped_edit_def add_entry_then_raise_def add_entry_def)

section \<open>Properties of the scheduler\<close>

lemma sched_step_terminal: "outcomes r \<noteq> [] \<Longrightarrow> sched_step flow cancel_at r = r"
  by (simp add: sched_step_def)

lemma exec_terminal: "outcomes r \<noteq> [] \<Longrightarrow> exec flow cancel_at r = r"
  by (simp add: exec.simps)

lemma exec_unfold: "outcomes r = [] \<Longrightarrow> exec flow cancel_at r = exec flow cancel_at (sched_step flow cancel_at r)"
  by (subst exec.simps) simp

lemma exec_outcome_nonempty: "outcomes (exec flow cancel_at r) \<noteq> []"
proof (induction flow cancel_at r rule: exec.induct)
  case (1 flow cancel_at r)
  then show ?case by (cases "outcomes r = []") (simp_all add: exec_unfold exec_terminal)
qed

lemma exec_invariant:
  assumes step: "\<And>r. P r \<Longrightarrow> outcomes r = [] \<Longrightarrow> P (sched_step flow cancel_at r)"
  shows "P r \<Longrightarrow> P (exec flow cancel_at r)"
proof (induction "time_left flow r" arbitrary: r rule: less_induct)
  case less
  show ?case
  proof (cases "outcomes r = []")
    case True
    from sched_step_progress [OF True] less.prems step True
    have "P (exec flow cancel_at (sched_step flow cancel_at r))"
      by (intro less.hyps) simp_all
    with True show ?thesis by (simp add: exec_unfold)
  next
    case False
    with less.prems show ?thesis by (simp add: exec_terminal)
  qed
qed

lemma first_stop_length: "length (first_stop evs) \<le> 1"
  by (induction evs rule: first_stop.induct) simp_all

lemma first_stop_Stopped: "filter is_Stopped (first_stop evs) = first_stop evs"
  by (induction evs rule: first_stop.induct) simp_all

lemma first_stop_append:
  "first_stop (xs @ ys) = (if first_stop xs = [] then first_stop ys else first_stop xs)"
  by (induction xs rule: first_stop.induct) simp_all

lemma interrupt_not_Stopped: "interrupt flow cancel_at = (deadline, how) \<Longrightarrow> \<not> is_Stopped how"
  by (auto simp: interrupt_def split: option.splits if_splits)

lemma sched_step_fifo: "fifo r \<Longrightarrow> fifo (sched_step flow cancel_at r)"
  by (auto simp: fifo_def sched_step_def finish_def Let_def
      split: prod.splits list.splits sum.splits completion.splits)

lemma sched_step_stop_recorded:
  assumes "stop_recorded r" and "outcomes r = []"
  shows "stop_recorded (sched_step flow cancel_at r)"
proof -
  obtain deadline how where i: "interrupt flow cancel_at = (deadline, how)"
    by (cases "interrupt flow cancel_at")
  from interrupt_not_Stopped [OF i] have h: "\<not> is_Stopped how" .
  from assms have a: "first_stop (arrived r) = []" by (simp add: stop_recorded_def)
  show ?thesis
    using assms(2) i h a first_stop_length
    by (auto simp: stop_recorded_def sched_step_def finish_def Let_def first_stop_append
        first_stop_Stopped split: list.splits sum.splits completion.splits)
qed

lemma start_fifo: "fifo (start kwargs s0)"
  by (simp add: fifo_def start_def)

lemma start_stop_recorded: "stop_recorded (start kwargs s0)"
  by (simp add: stop_recorded_def start_def)

lemma iterate_fifo: "fifo r \<Longrightarrow> fifo ((sched_step flow cancel_at ^^ n) r)"
  by (induction n) (simp_all add: sched_step_fifo)

lemma exec_stop_recorded: "stop_recorded r \<Longrightarrow> stop_recorded (exec flow cancel_at r)"
  by (rule exec_invariant) (simp_all add: sched_step_stop_recorded)

lemma exec_fifo: "fifo r \<Longrightarrow> fifo (exec flow cancel_at r)"
  by (rule exec_invariant) (simp_all add: sched_step_fifo)

lemma exec_one_outcome:
  assumes "stop_recorded r"
  shows "length (outcomes (exec flow cancel_at r)) = 1"
proof -
  from exec_stop_recorded [OF assms] have "length (outcomes (exec flow cancel_at r)) \<le> 1"
    by (simp add: stop_recorded_def)
  with exec_outcome_nonempty [of flow cancel_at r] show ?thesis
    by (cases "outcomes (exec flow cancel_at r)") simp_all
qed

lemma exec_is_iterate:
  "\<exists>n. exec flow cancel_at r = (sched_step flow cancel_at ^^ n) r
       \<and> (\<forall>k<n. outcomes ((sched_step flow cancel_at ^^ k) r) = [])"
proof (induction "time_left flow r" arbitrary: r rule: less_induct)
  case less
  show ?case
  proof (cases "outcomes r = []")
    case False
    then have "exec flow cancel_at r = (sched_step flow cancel_at ^^ 0) r" by (simp add: exec_terminal)
    then show ?thesis by blast
  next
    case True
    from less.hyps [OF sched_step_progress [OF True]]
    obtain n where n: "exec flow cancel_at (sched_step flow cancel_at r) =
                         (sched_step flow cancel_at ^^ n) (sched_step flow cancel_at r)"
      and before: "\<forall>k<n. outcomes ((sched_step flow cancel_at ^^ k) (sched_step flow cancel_at r)) = []"
      by blast
    have "exec flow cancel_at r = (sched_step flow cancel_at ^^ Suc n) r"
      using n True by (simp add: exec_unfold funpow_swap1)
    moreover have "\<forall>k<Suc n. outcomes ((sched_step flow cancel_at ^^ k) r) = []"
    proof (intro allI impI)
      fix k assume "k < Suc n"
      then show "outcomes ((sched_step flow cancel_at ^^ k) r) = []"
        using before True by (cases k) (simp_all add: funpow_swap1)
    qed
    ultimately show ?thesis by blast
  qed
qed

lemma iterate_terminal:
  "outcomes r \<noteq> [] \<Longrightarrow> (sched_step flow cancel_at ^^ m) r = r"
  by (induction m) (simp_all add: sched_step_terminal)

lemma first_stop_empty: "first_stop evs = [] \<Longrightarrow> StopEvent res \<notin> set evs"
  by (induction evs rule: first_stop.induct) auto

lemma reflection_no_failure_step:
  assumes "fifo r" and "stop_recorded r" and "outcomes r = []"
  shows "Failed e \<notin> set (outcomes (sched_step (reflection_flow self x latency limit) cancel_at r))"
proof -
  obtain deadline how where i: "interrupt (reflection_flow self x latency limit) cancel_at = (deadline, how)"
    by (cases "interrupt (reflection_flow self x latency limit) cancel_at")
  then have how: "how = TimedOut \<or> how = Cancelled"
    by (auto simp: interrupt_def split: option.splits if_splits)
  show ?thesis
  proof (cases "queue r")
    case Nil
    with assms(3) i how show ?thesis by (auto simp: sched_step_def finish_def)
  next
    case (Cons ev pending)
    from assms(1) Cons have "ev \<in> set (arrived r)" by (simp add: fifo_def)
    moreover from assms(2,3) have "first_stop (arrived r) = []" by (simp add: stop_recorded_def)
    ultimately have ns: "\<And>res. ev \<noteq> StopEvent res" using first_stop_empty by metis
    have fs: "Failed e \<notin> set (first_stop evs)" for evs :: "(reflection_event, string) event list"
      by (induction evs rule: first_stop.induct) simp_all
    show ?thesis
    proof (cases ev)
      case (StartEvent kw)
      with assms(3) i how Cons fs show ?thesis
        by (auto simp: sched_step_def finish_def route_def reflection_flow_def as_completion_def
            extract_def complete_extraction_def Let_def split: option.splits)
    next
      case (StopEvent res)
      with ns [of res] show ?thesis by simp
    next
      case (Ev u)
      with assms(3) i how Cons fs show ?thesis
        by (cases u)
          (auto simp: sched_step_def finish_def route_def reflection_flow_def as_completion_def
            extract_def validate_def complete_extraction_def Let_def split: option.splits)
    qed
  qed
qed

lemma reflection_no_failure:
  "Failed e \<notin> set (outcomes (exec (reflection_flow self x latency limit) cancel_at (start kwargs w0)))"
proof -
  let ?P = "\<lambda>r. fifo r \<and> stop_recorded r \<and> Failed e \<notin> set (outcomes r)"
  have "?P (exec (reflection_flow self x latency limit) cancel_at (start kwargs w0))"
  proof (rule exec_invariant)
    show "?P (start kwargs w0)" by (simp add: start_fifo start_stop_recorded) (simp add: start_def)
  next
    fix r :: "(world, reflection_event, string) run"
    assume "?P r" and "outcomes r = []"
    then show "?P (sched_step (reflection_flow self x latency limit) cancel_at r)"
      by (simp add: sched_step_fifo sched_step_stop_recorded reflection_no_failure_step)
  qed
  then show ?thesis by simp
qed


lemmas agents_eval =
  report_run_def report_flow_def agent_flow_def agent_step_def agent_workflow_def start_agents_def
  scripted_act_def research_agent_def write_agent_def review_agent_def
  record_notes_def write_report_def review_report_def returning_def scoped_edit_def
  add_entry_def record_notes_scope_def

lemmas step_eval =
  sched_step_def route_def interrupt_def finish_def start_def sender_def find_step_def may_handoff_def
  Let_def

lemmas two_cars_eval =
  two_cars_flow_def two_cars_start_def ten_ticks_def reflection_flow_def as_completion_def extract_def
  validate_def complete_extraction_def default_workflow_def flaky_externals_def fresh_world_def
  store_get_def store_set_def

lemma sched_step_clock:
  "interrupt flow cancel_at = (deadline, how) \<Longrightarrow> clock r \<le> deadline \<Longrightarrow>
     clock (sched_step flow cancel_at r) \<le> deadline"
  by (auto simp: sched_step_def finish_def Let_def
      split: list.splits sum.splits completion.splits)

lemma iterate_clock:
  "interrupt flow cancel_at = (deadline, how) \<Longrightarrow> clock r \<le> deadline \<Longrightarrow>
     clock ((sched_step flow cancel_at ^^ n) r) \<le> deadline"
  by (induction n) (simp_all add: sched_step_clock)

lemma iterate_stop_recorded:
  "stop_recorded r \<Longrightarrow> stop_recorded ((sched_step flow cancel_at ^^ n) r)"
proof (induction n)
  case 0
  then show ?case by simp
next
  case (Suc n)
  show ?case
  proof (cases "outcomes ((sched_step flow cancel_at ^^ n) r) = []")
    case True
    with Suc show ?thesis by (simp add: sched_step_stop_recorded)
  next
    case False
    with Suc show ?thesis by (simp add: sched_step_terminal)
  qed
qed

lemma first_stop_is_Stopped: "first_stop evs = [out] \<Longrightarrow> is_Stopped out"
  using first_stop_Stopped [of evs] by (cases out) auto

lemma sched_step_ends:
  fixes flow :: "('s, 'u, 'r) workflow"
  assumes "outcomes r = []" and "interrupt flow cancel_at = (deadline, how)" and "clock r \<le> deadline"
    and "outcomes (sched_step flow cancel_at r) = [out]"
  shows "out = how \<and> clock (sched_step flow cancel_at r) = deadline
       \<or> is_Stopped out
       \<or> (\<exists>e ev pending.
             out = Failed e \<and> queue r = ev # pending
             \<and> (route flow (sender r) ev = Inl e
                \<or> (\<exists>st. route flow (sender r) ev = Inr st \<and> body st (state r) ev = Raises e)))"
proof (cases "deadline \<le> clock r")
  case True
  with assms show ?thesis by (simp add: sched_step_def finish_def)
next
  case late: False
  show ?thesis
  proof (cases "queue r")
    case Nil
    with assms late show ?thesis by (simp add: sched_step_def finish_def)
  next
    case (Cons ev pending)
    show ?thesis
    proof (cases "route flow (sender r) ev")
      case (Inl e)
      with assms late Cons show ?thesis by (simp add: sched_step_def finish_def)
    next
      case (Inr st)
      show ?thesis
      proof (cases "body st (state r) ev")
        case (Returns s' emitted d)
        with assms late Cons Inr show ?thesis
          by (auto simp: sched_step_def finish_def Let_def first_stop_is_Stopped split: if_splits)
      next
        case (Raises e)
        with assms late Cons Inr show ?thesis by (simp add: sched_step_def finish_def Let_def)
      next
        case Suspends
        with assms late Cons Inr show ?thesis by (simp add: sched_step_def finish_def Let_def)
      qed
    qed
  qed
qed

text \<open>
  Claim C2, as amended. Every run ends: exactly one terminal outcome is recorded, and it is
  \<open>Stopped\<close>, \<open>Cancelled\<close>, \<open>TimedOut\<close> or the tagged failure of an error that ends the run
  (section 7 of the specification). At every moment a \<open>Stopped\<close> outcome is recorded exactly
  for the first \<open>StopEvent\<close> that arrived, so the run ends in the iteration in which that
  event arrives. The run is the sequence of the scheduler's iterations up to the first
  state with an outcome; from that state on nothing changes, so no step is invoked and no
  event is processed after it. \<open>Cancelled\<close> is recorded only at the tick the caller chose,
  before the timeout; \<open>TimedOut\<close> only at the timeout; a failure only in an iteration
  whose event cannot be routed (no step, several steps, an illegal hand-off) or whose step
  raises. The reflection workflow never fails: its outcome is one of the first three.
\<close>

theorem run_ends_with_one_outcome:
  fixes flow :: "('s, 'u, 'r) workflow" and cancel_at :: "nat option"
    and kwargs :: "(string \<times> string) list" and s0 :: 's
  defines "final \<equiv> exec flow cancel_at (start kwargs s0)"
    and "run_state \<equiv> \<lambda>n. (sched_step flow cancel_at ^^ n) (start kwargs s0)"
  shows "length (outcomes final) = 1
       \<and> (\<forall>n. length (outcomes (run_state n)) \<le> 1
              \<and> filter is_Stopped (outcomes (run_state n)) = first_stop (arrived (run_state n)))
       \<and> filter is_Stopped (outcomes final) = first_stop (arrived final)
       \<and> (\<exists>n. final = run_state n \<and> (\<forall>k<n. outcomes (run_state k) = [])
              \<and> (\<forall>m. run_state (n + m) = final))
       \<and> sched_step flow cancel_at final = final
       \<and> (outcomes final = [Cancelled] \<longrightarrow>
            (\<exists>t. cancel_at = Some t \<and> t < timeout flow \<and> clock final = t))
       \<and> (outcomes final = [TimedOut] \<longrightarrow>
            clock final = timeout flow \<and> (\<forall>t. cancel_at = Some t \<longrightarrow> timeout flow \<le> t))
       \<and> (\<forall>e. outcomes final = [Failed e] \<longrightarrow>
            (\<exists>k ev pending.
               final = run_state (Suc k) \<and> outcomes (run_state k) = [] \<and> queue (run_state k) = ev # pending
               \<and> (route flow (sender (run_state k)) ev = Inl e
                  \<or> (\<exists>st. route flow (sender (run_state k)) ev = Inr st
                          \<and> body st (state (run_state k)) ev = Raises e))))
       \<and> (\<exists>out. outcomes (exec (reflection_flow self x latency limit) cancel_at (start kwargs w0)) = [out]
              \<and> (is_Stopped out \<or> out = Cancelled \<or> out = TimedOut))"
proof (intro conjI)
  show one: "length (outcomes final) = 1"
    unfolding final_def by (rule exec_one_outcome) (rule start_stop_recorded)
  show "\<forall>n. length (outcomes (run_state n)) \<le> 1
            \<and> filter is_Stopped (outcomes (run_state n)) = first_stop (arrived (run_state n))"
    using iterate_stop_recorded
            [OF start_stop_recorded [of kwargs s0], where flow = flow and cancel_at = cancel_at]
    by (simp add: stop_recorded_def run_state_def)
  have "stop_recorded final"
    unfolding final_def by (rule exec_stop_recorded) (rule start_stop_recorded)
  then show "filter is_Stopped (outcomes final) = first_stop (arrived final)"
    by (simp add: stop_recorded_def)
  from one have ne: "outcomes final \<noteq> []" by auto
  then show "sched_step flow cancel_at final = final" by (rule sched_step_terminal)
  from exec_is_iterate [of flow cancel_at "start kwargs s0"]
  obtain n where n: "final = run_state n" and before: "\<forall>k<n. outcomes (run_state k) = []"
    unfolding final_def run_state_def by blast
  have "run_state (n + m) = final" for m
  proof -
    have "run_state (n + m) = (sched_step flow cancel_at ^^ m) (run_state n)"
      unfolding run_state_def by (simp add: funpow_add add.commute)
    with n ne iterate_terminal [where r = final and flow = flow and m = m] show ?thesis by simp
  qed
  with n before show "\<exists>n. final = run_state n \<and> (\<forall>k<n. outcomes (run_state k) = [])
              \<and> (\<forall>m. run_state (n + m) = final)" by blast
  obtain deadline how where i: "interrupt flow cancel_at = (deadline, how)"
    by (cases "interrupt flow cancel_at")
  have "outcomes (run_state 0) = []" by (simp add: run_state_def start_def)
  with n ne obtain k where k: "n = Suc k" by (cases n) auto
  with before have live: "outcomes (run_state k) = []" by simp
  from n k have fin: "final = sched_step flow cancel_at (run_state k)" by (simp add: run_state_def)
  have "clock (start kwargs s0) \<le> deadline" by (simp add: start_def)
  from iterate_clock [OF i this, of k] have ck: "clock (run_state k) \<le> deadline"
    by (simp add: run_state_def)
  from one obtain out where out: "outcomes final = [out]" by (cases "outcomes final") auto
  note ends = sched_step_ends [OF live i ck out [unfolded fin], folded fin]
  from i have how: "how = Cancelled \<and> (\<exists>t. cancel_at = Some t \<and> t < timeout flow \<and> deadline = t)
      \<or> how = TimedOut \<and> deadline = timeout flow \<and> (\<forall>t. cancel_at = Some t \<longrightarrow> timeout flow \<le> t)"
    by (auto simp: interrupt_def split: option.splits if_splits)
  show "outcomes final = [Cancelled] \<longrightarrow>
          (\<exists>t. cancel_at = Some t \<and> t < timeout flow \<and> clock final = t)"
    using ends how out by auto
  show "outcomes final = [TimedOut] \<longrightarrow>
          clock final = timeout flow \<and> (\<forall>t. cancel_at = Some t \<longrightarrow> timeout flow \<le> t)"
    using ends how out by auto
  show "\<forall>e. outcomes final = [Failed e] \<longrightarrow>
            (\<exists>k ev pending.
               final = run_state (Suc k) \<and> outcomes (run_state k) = [] \<and> queue (run_state k) = ev # pending
               \<and> (route flow (sender (run_state k)) ev = Inl e
                  \<or> (\<exists>st. route flow (sender (run_state k)) ev = Inr st
                          \<and> body st (state (run_state k)) ev = Raises e)))"
  proof (intro allI impI)
    fix e assume "outcomes final = [Failed e]"
    with out have "out = Failed e" by simp
    with ends how obtain ev pending where "queue (run_state k) = ev # pending"
      and "route flow (sender (run_state k)) ev = Inl e
           \<or> (\<exists>st. route flow (sender (run_state k)) ev = Inr st
                   \<and> body st (state (run_state k)) ev = Raises e)"
      by auto
    with n k live show "\<exists>k ev pending.
               final = run_state (Suc k) \<and> outcomes (run_state k) = [] \<and> queue (run_state k) = ev # pending
               \<and> (route flow (sender (run_state k)) ev = Inl e
                  \<or> (\<exists>st. route flow (sender (run_state k)) ev = Inr st
                          \<and> body st (state (run_state k)) ev = Raises e))"
      by blast
  qed
  let ?f = "exec (reflection_flow self x latency limit) cancel_at (start kwargs w0)"
  have "length (outcomes ?f) = 1" by (rule exec_one_outcome) (rule start_stop_recorded)
  then obtain out where out: "outcomes ?f = [out]" by (cases "outcomes ?f") simp_all
  with reflection_no_failure [of _ self x latency limit cancel_at kwargs w0]
  have "\<And>e. out \<noteq> Failed e" by auto
  then have "is_Stopped out \<or> out = Cancelled \<or> out = TimedOut" by (cases out) auto
  with out show "\<exists>out. outcomes ?f = [out] \<and> (is_Stopped out \<or> out = Cancelled \<or> out = TimedOut)"
    by blast
qed

text \<open>
  The reflection workflow on the scheduler: within 120 ticks the run stops with the second
  output; with a timeout of 15 ticks it times out at tick 15, in the second invocation of
  \<open>extract\<close>, which has set the counter to 2 by then; cancelled at tick 5 it is cancelled
  at tick 5, in the first invocation, with the counter at 1.
\<close>

theorem run_ends_with_one_outcome_witness:
  "outcomes (exec (two_cars_flow 120) None two_cars_start) = [Stopped ''{}'']
   \<and> sched_step (two_cars_flow 120) None (exec (two_cars_flow 120) None two_cars_start) =
       exec (two_cars_flow 120) None two_cars_start
   \<and> first_stop (arrived (exec (two_cars_flow 120) None two_cars_start)) = [Stopped ''{}'']
   \<and> outcomes (exec (two_cars_flow 15) None two_cars_start) = [TimedOut]
   \<and> first_stop (arrived (exec (two_cars_flow 15) None two_cars_start)) = []
   \<and> clock (exec (two_cars_flow 15) None two_cars_start) = 15
   \<and> retries (state (exec (two_cars_flow 15) None two_cars_start)) = 2
   \<and> outcomes (exec (two_cars_flow 120) (Some 5) two_cars_start) = [Cancelled]
   \<and> clock (exec (two_cars_flow 120) (Some 5) two_cars_start) = 5
   \<and> retries (state (exec (two_cars_flow 120) (Some 5) two_cars_start)) = 1"
proof -
  have o: "outcomes (exec (two_cars_flow 120) None two_cars_start) = [Stopped ''{}'']"
    "outcomes (exec (two_cars_flow 15) None two_cars_start) = [TimedOut]"
    "outcomes (exec (two_cars_flow 120) (Some 5) two_cars_start) = [Cancelled]"
    by (simp_all add: two_cars_eval step_eval exec.simps)
  have s: "retries (state (exec (two_cars_flow 15) None two_cars_start)) = 2"
    "retries (state (exec (two_cars_flow 120) (Some 5) two_cars_start)) = 1"
    by (simp_all add: two_cars_eval step_eval exec.simps retries_def)
  have t: "timeout (two_cars_flow 15) = 15"
    by (simp add: two_cars_flow_def reflection_flow_def)
  from run_ends_with_one_outcome
         [where flow = "two_cars_flow 120" and cancel_at = None
            and kwargs = "[(''passage'', ''two cars'')]" and ?s0.0 = fresh_world]
       run_ends_with_one_outcome
         [where flow = "two_cars_flow 15" and cancel_at = None
            and kwargs = "[(''passage'', ''two cars'')]" and ?s0.0 = fresh_world]
       run_ends_with_one_outcome
         [where flow = "two_cars_flow 120" and cancel_at = "Some 5"
            and kwargs = "[(''passage'', ''two cars'')]" and ?s0.0 = fresh_world]
       o s t
  show ?thesis by (simp add: two_cars_start_def)
qed

text \<open>
  Claim C2 as stated fails: the run of the notebook's three agents in which the review
  agent hands off to the research agent ends with one outcome that is neither a stop nor
  a cancellation nor a timeout, the failure \<open>IllegalHandoffError\<close>.
\<close>

theorem run_ends_with_failure_counterexample:
  "outcomes (exec report_flow None (start_agents agent_workflow ''history of the internet'')) =
     [Failed IllegalHandoffError]
   \<and> filter (\<lambda>out. is_Stopped out \<or> out = Cancelled \<or> out = TimedOut)
       (outcomes (exec report_flow None (start_agents agent_workflow ''history of the internet''))) = []
   \<and> first_stop (arrived (exec report_flow None (start_agents agent_workflow ''history of the internet''))) = []"
  by (simp add: agents_eval step_eval exec.simps)

text \<open>
  Claim C7. At every moment of a run the events that arrived are those consumed so far, in
  the order of the invocations, followed by the pending queue: events are consumed in the
  order of their arrival. An iteration consumes nothing or the head of the queue, and what
  the invoked step emits is appended to the tail of the queue; a step that returns in time
  has its events appended in the order it returned them.
\<close>

theorem events_processed_in_arrival_order:
  fixes flow :: "('s, 'u, 'r) workflow" and cancel_at :: "nat option"
    and kwargs :: "(string \<times> string) list" and s0 :: 's
  defines "run_state \<equiv> \<lambda>n. (sched_step flow cancel_at ^^ n) (start kwargs s0)"
    and "final \<equiv> exec flow cancel_at (start kwargs s0)"
  shows "(\<forall>n. arrived (run_state n) = map snd (invoked (run_state n)) @ queue (run_state n))
       \<and> arrived final = map snd (invoked final) @ queue final
       \<and> (\<forall>r. \<exists>emitted.
             arrived (sched_step flow cancel_at r) = arrived r @ emitted
             \<and> (invoked (sched_step flow cancel_at r) = invoked r
                  \<and> queue (sched_step flow cancel_at r) = queue r \<and> emitted = []
                \<or> (\<exists>st ev pending.
                      queue r = ev # pending
                      \<and> invoked (sched_step flow cancel_at r) = invoked r @ [(st, ev)]
                      \<and> queue (sched_step flow cancel_at r) = pending @ emitted)))
       \<and> (\<forall>r deadline how ev pending st s' emitted d.
             outcomes r = [] \<and> interrupt flow cancel_at = (deadline, how) \<and> queue r = ev # pending
             \<and> route flow (sender r) ev = Inr st \<and> body st (state r) ev = Returns s' emitted d
             \<and> clock r + d < deadline
             \<longrightarrow> queue (sched_step flow cancel_at r) = pending @ emitted
               \<and> arrived (sched_step flow cancel_at r) = arrived r @ emitted
               \<and> invoked (sched_step flow cancel_at r) = invoked r @ [(step_name st, ev)])"
proof (intro conjI allI impI)
  fix n
  from iterate_fifo [OF start_fifo, where flow = flow and cancel_at = cancel_at and n = n]
  show "arrived (run_state n) = map snd (invoked (run_state n)) @ queue (run_state n)"
    by (simp add: fifo_def run_state_def)
next
  from exec_fifo [OF start_fifo, where flow = flow and cancel_at = cancel_at]
  show "arrived final = map snd (invoked final) @ queue final"
    by (simp add: fifo_def final_def)
next
  fix r :: "('s, 'u, 'r) run"
  show "\<exists>emitted.
          arrived (sched_step flow cancel_at r) = arrived r @ emitted
          \<and> (invoked (sched_step flow cancel_at r) = invoked r
               \<and> queue (sched_step flow cancel_at r) = queue r \<and> emitted = []
             \<or> (\<exists>st ev pending.
                   queue r = ev # pending
                   \<and> invoked (sched_step flow cancel_at r) = invoked r @ [(st, ev)]
                   \<and> queue (sched_step flow cancel_at r) = pending @ emitted))"
    by (auto simp: sched_step_def finish_def Let_def
        split: prod.splits list.splits sum.splits completion.splits)
next
  fix r :: "('s, 'u, 'r) run" and deadline how ev pending st s' emitted d
  assume h: "outcomes r = [] \<and> interrupt flow cancel_at = (deadline, how) \<and> queue r = ev # pending
             \<and> route flow (sender r) ev = Inr st \<and> body st (state r) ev = Returns s' emitted d
             \<and> clock r + d < deadline"
  then show "queue (sched_step flow cancel_at r) = pending @ emitted"
    and "arrived (sched_step flow cancel_at r) = arrived r @ emitted"
    and "invoked (sched_step flow cancel_at r) = invoked r @ [(step_name st, ev)]"
    by (auto simp: sched_step_def finish_def Let_def)
qed

text \<open>The reflection workflow on the scheduler: its first iteration and its whole run.\<close>

theorem events_processed_in_arrival_order_witness:
  "queue (sched_step (two_cars_flow 120) None two_cars_start) =
     [Ev (ExtractionDone ''Here are the cars'' ''two cars'')]
   \<and> invoked (sched_step (two_cars_flow 120) None two_cars_start) =
       [(''extract'', StartEvent [(''passage'', ''two cars'')])]
   \<and> arrived (exec (two_cars_flow 120) None two_cars_start) =
       [StartEvent [(''passage'', ''two cars'')],
        Ev (ExtractionDone ''Here are the cars'' ''two cars''),
        Ev (ValidationErrorEvent ''Invalid JSON'' ''Here are the cars'' ''two cars''),
        Ev (ExtractionDone ''{}'' ''two cars''),
        StopEvent ''{}'']
   \<and> map snd (invoked (exec (two_cars_flow 120) None two_cars_start)) =
       [StartEvent [(''passage'', ''two cars'')],
        Ev (ExtractionDone ''Here are the cars'' ''two cars''),
        Ev (ValidationErrorEvent ''Invalid JSON'' ''Here are the cars'' ''two cars''),
        Ev (ExtractionDone ''{}'' ''two cars'')]
   \<and> queue (exec (two_cars_flow 120) None two_cars_start) = [StopEvent ''{}'']"
proof -
  let ?st = "hd (steps (two_cars_flow 120))"
  let ?w = "fresh_world\<lparr>store := (store fresh_world)(''retries'' \<mapsto> 1),
              prompts := [EXTRACTION_PROMPT ''two cars'' ''schema'']\<rparr>"
  have h: "outcomes two_cars_start = [] \<and> interrupt (two_cars_flow 120) None = (120, TimedOut)
      \<and> queue two_cars_start = StartEvent [(''passage'', ''two cars'')] # []
      \<and> route (two_cars_flow 120) (sender two_cars_start) (StartEvent [(''passage'', ''two cars'')]) = Inr ?st
      \<and> body ?st (state two_cars_start) (StartEvent [(''passage'', ''two cars'')]) =
           Returns ?w [Ev (ExtractionDone ''Here are the cars'' ''two cars'')] 10
      \<and> clock two_cars_start + 10 < 120"
    by (simp add: two_cars_eval step_eval)
  have n: "step_name ?st = ''extract''" by (simp add: two_cars_eval)
  have q: "queue (exec (two_cars_flow 120) None two_cars_start) = [StopEvent ''{}'']"
    and i: "map snd (invoked (exec (two_cars_flow 120) None two_cars_start)) =
       [StartEvent [(''passage'', ''two cars'')],
        Ev (ExtractionDone ''Here are the cars'' ''two cars''),
        Ev (ValidationErrorEvent ''Invalid JSON'' ''Here are the cars'' ''two cars''),
        Ev (ExtractionDone ''{}'' ''two cars'')]"
    by (simp_all add: two_cars_eval step_eval exec.simps)
  note t = events_processed_in_arrival_order [of "two_cars_flow 120" None "[(''passage'', ''two cars'')]" fresh_world]
  from t have a: "arrived (exec (two_cars_flow 120) None two_cars_start) =
      map snd (invoked (exec (two_cars_flow 120) None two_cars_start)) @ queue (exec (two_cars_flow 120) None two_cars_start)"
    by (simp add: two_cars_start_def)
  from t [THEN conjunct2, THEN conjunct2, THEN conjunct2, rule_format, OF h] n
  have s: "queue (sched_step (two_cars_flow 120) None two_cars_start) = [] @ [Ev (ExtractionDone ''Here are the cars'' ''two cars'')]
     \<and> invoked (sched_step (two_cars_flow 120) None two_cars_start) = invoked two_cars_start @ [(''extract'', StartEvent [(''passage'', ''two cars'')])]"
    by simp
  have "invoked two_cars_start = []" by (simp add: two_cars_start_def start_def)
  with s a q i show ?thesis by simp
qed













end
